theory Spec2Isabelle
  imports Main
begin

section \<open>The healing chain element (pkg/networkservice/common/heal/client.go)\<close>

subsection \<open>Data\<close>

text \<open>
  The wire messages and the transport handle are opaque to the healing element: a
  connection and a request are named by a string, a \<^verbatim>\<open>grpc.ClientConnInterface\<close> by a
  number. A \<^verbatim>\<open>context.CancelFunc\<close> of a monitoring task is named by the number of the
  task it cancels.
\<close>

type_synonym connection = string
type_synonym request = string
type_synonym clientConn = nat
type_synonym handle = nat
type_synonym empty = unit

text \<open>
  A Go \<^verbatim>\<open>error\<close>: a plain error, or \<^verbatim>\<open>errors.Wrap(err, msg)\<close>, which keeps its cause.
\<close>

datatype error = Error string | Wrap error string

text \<open>
  A \<^verbatim>\<open>context.Context\<close> as the element uses it: a call context carries the key of the
  logical connection (the per-connection metadata it gives access to) and the caller's
  values; \<^verbatim>\<open>postpone.ContextWithValues(ctx)()\<close> and
  \<^verbatim>\<open>extend.WithValuesFromContext(parent, ctx)\<close> build contexts that carry the values of
  \<^verbatim>\<open>ctx\<close>.
\<close>

datatype ctx =
    Ctx string "string list"
  | Postponed ctx
  | WithValuesFromContext ctx ctx

fun metadata_key :: "ctx \<Rightarrow> string" where
  "metadata_key (Ctx k vs) = k"
| "metadata_key (Postponed c) = metadata_key c"
| "metadata_key (WithValuesFromContext parent c) = metadata_key c"

text \<open>The calls a Request or a Close makes, in program order.\<close>

datatype effect =
    PostponeSnapshot ctx
  | Cancelled handle
  | NextRequest ctx request
  | NewEventLoop ctx clientConn "connection option"
  | NextClose ctx "connection option"
  | Stored string handle

text \<open>
  The element: the chain context that outlives every call, the liveness check (a nil
  function when the option is not given) and its interval and timeout, as durations in
  nanoseconds.
\<close>

record healClient =
  chainCtx :: ctx
  livenessCheck :: "(ctx \<Rightarrow> connection \<Rightarrow> bool) option"
  livenessCheckInterval :: nat
  livenessCheckTimeout :: nat

text \<open>
  What the rest of the chain answers during one call: the next element's
  \<^verbatim>\<open>Request\<close> and \<^verbatim>\<open>Close\<close> (Go pairs of a pointer and an error),
  \<^verbatim>\<open>clientconn.Load\<close> after the forward, and whether opening the monitor stream of a
  new event loop fails.
\<close>

record next_client =
  next_Request :: "ctx \<Rightarrow> request \<Rightarrow> connection option \<times> error option"
  next_Close :: "ctx \<Rightarrow> connection option \<Rightarrow> empty option \<times> error option"
  clientconn_Load :: "ctx \<Rightarrow> clientConn option"
  monitor_open :: "ctx \<Rightarrow> clientConn \<Rightarrow> connection option \<Rightarrow> error option"

text \<open>
  The state the element works on: the cancel function stored in the metadata of each
  logical connection, the monitoring tasks that were started and not cancelled (each with
  the key of the connection it watches), the next unused task number, and the calls made
  so far.
\<close>

record heal_state =
  stored :: "string \<Rightarrow> handle option"
  tasks :: "(string \<times> handle) list"
  fresh :: nat
  effects :: "effect list"

definition init_heal :: heal_state where
  "init_heal = \<lparr>stored = (\<lambda>k. None), tasks = [], fresh = 0, effects = []\<rparr>"

subsection \<open>Helpers of the package that client.go calls\<close>

text \<open>
  Modelled from the spec: \<^verbatim>\<open>loadAndDelete\<close> (heal/metadata.go is not among the sources).
  It looks up the cancellation handle of the logical connection key derivable from the
  context and removes it.
\<close>

definition loadAndDelete :: "ctx \<Rightarrow> heal_state \<Rightarrow> handle option \<times> heal_state" where
  "loadAndDelete c s =
     (stored s (metadata_key c), s\<lparr>stored := (stored s)(metadata_key c := None)\<rparr>)"

text \<open>
  Modelled from the spec: \<^verbatim>\<open>store\<close> (heal/metadata.go is not among the sources). It
  stores the new task's cancellation handle under the logical connection key.
\<close>

definition store :: "ctx \<Rightarrow> handle \<Rightarrow> heal_state \<Rightarrow> heal_state" where
  "store c cancel s =
     s\<lparr>stored := (stored s)(metadata_key c \<mapsto> cancel),
       effects := effects s @ [Stored (metadata_key c) cancel]\<rparr>"

text \<open>
  Modelled from the spec: invoking a cancellation handle. The monitoring task it belongs
  to becomes Terminated; invoking it again changes nothing but the record of the call.
\<close>

definition cancelEventLoop :: "handle \<Rightarrow> heal_state \<Rightarrow> heal_state" where
  "cancelEventLoop cancel s =
     s\<lparr>tasks := filter (\<lambda>(k, t). t \<noteq> cancel) (tasks s),
       effects := effects s @ [Cancelled cancel]\<rparr>"

text \<open>
  Modelled from the spec: \<^verbatim>\<open>newEventLoop\<close> (heal/eventloop.go is not among the
  sources). Starting the monitoring task fails when the monitor subscription cannot be
  opened; otherwise a new task watches the connection of the context and its
  cancellation handle is returned.
\<close>

definition newEventLoop ::
  "next_client \<Rightarrow> ctx \<Rightarrow> clientConn \<Rightarrow> connection option \<Rightarrow> heal_state \<Rightarrow> (error + handle) \<times> heal_state" where
  "newEventLoop nx c cc conn s =
     (let s1 = s\<lparr>effects := effects s @ [NewEventLoop c cc conn]\<rparr> in
      case monitor_open nx c cc conn of
        Some e \<Rightarrow> (Inl e, s1)
      | None \<Rightarrow>
          (Inr (fresh s1),
           s1\<lparr>tasks := tasks s1 @ [(metadata_key c, fresh s1)], fresh := Suc (fresh s1)\<rparr>))"

text \<open>
  Modelled from the spec: \<^verbatim>\<open>postpone.ContextWithValues\<close> (pkg/tools/postpone is not
  among the sources). It captures the values of the call context; the function it returns
  yields the context \<open>Postponed c\<close>.
\<close>

definition postpone_ContextWithValues :: "ctx \<Rightarrow> heal_state \<Rightarrow> heal_state" where
  "postpone_ContextWithValues c s = s\<lparr>effects := effects s @ [PostponeSnapshot c]\<rparr>"

subsection \<open>Request and Close\<close>

text \<open>
  \<^verbatim>\<open>healClient.Request\<close> and \<^verbatim>\<open>healClient.Close\<close>, statement by statement. A Go result
  pair of a pointer and an error is a pair of options, \<open>None\<close> for nil. The call options
  are passed through to the next element and play no part. In the failure branch of
  Request the result of the Close is dropped, as the source drops it; the deferred
  \<^verbatim>\<open>closeCancel\<close> only releases the postponed context.
\<close>

definition healClient_Request ::
  "healClient \<Rightarrow> next_client \<Rightarrow> ctx \<Rightarrow> request \<Rightarrow> heal_state
     \<Rightarrow> (connection option \<times> error option) \<times> heal_state" where
  "healClient_Request h nx c request s0 =
     (let s1 = postpone_ContextWithValues c s0;
          (loaded, s2) = loadAndDelete c s1;
          s3 = (case loaded of Some cancel \<Rightarrow> cancelEventLoop cancel s2 | None \<Rightarrow> s2);
          s4 = s3\<lparr>effects := effects s3 @ [NextRequest c request]\<rparr>;
          (conn, err) = next_Request nx c request
      in if err \<noteq> None then ((None, err), s4)
         else
           (case clientconn_Load nx c of
              Some cc \<Rightarrow>
                (case newEventLoop nx (WithValuesFromContext (chainCtx h) c) cc conn s4 of
                   (Inl eventLoopErr, s5) \<Rightarrow>
                     ((None, Some (Wrap eventLoopErr ''unable to monitor'')),
                      s5\<lparr>effects := effects s5 @ [NextClose (Postponed c) conn]\<rparr>)
                 | (Inr cancel, s5) \<Rightarrow> ((conn, None), store c cancel s5))
            | None \<Rightarrow> ((conn, None), s4)))"

definition healClient_Close ::
  "healClient \<Rightarrow> next_client \<Rightarrow> ctx \<Rightarrow> connection option \<Rightarrow> heal_state
     \<Rightarrow> (empty option \<times> error option) \<times> heal_state" where
  "healClient_Close h nx c conn s0 =
     (let (loaded, s1) = loadAndDelete c s0;
          s2 = (case loaded of Some cancel \<Rightarrow> cancelEventLoop cancel s1 | None \<Rightarrow> s1)
      in (next_Close nx c conn, s2\<lparr>effects := effects s2 @ [NextClose c conn]\<rparr>))"

text \<open>
  A sequence of calls on one element, made one at a time (the element relies on the calls
  for one connection arriving one at a time), each with the answers of the rest of the
  chain.
\<close>

datatype call =
    Request next_client ctx request
  | Close next_client ctx "connection option"

fun apply_call :: "healClient \<Rightarrow> heal_state \<Rightarrow> call \<Rightarrow> heal_state" where
  "apply_call h s (Request nx c r) = snd (healClient_Request h nx c r s)"
| "apply_call h s (Close nx c conn) = snd (healClient_Close h nx c conn s)"

definition run_calls :: "healClient \<Rightarrow> call list \<Rightarrow> heal_state" where
  "run_calls h calls = foldl (apply_call h) init_heal calls"

text \<open>The calls made between two states, and "a is called before b".\<close>

definition new_effects :: "heal_state \<Rightarrow> heal_state \<Rightarrow> effect list" where
  "new_effects s s' = drop (length (effects s)) (effects s')"

fun before :: "'a \<Rightarrow> 'a \<Rightarrow> 'a list \<Rightarrow> bool" where
  "before a b [] = False"
| "before a b (x # xs) = ((x = a \<and> b \<in> set xs) \<or> before a b xs)"

definition tasks_of :: "string \<Rightarrow> heal_state \<Rightarrow> handle list" where
  "tasks_of k s = map snd (filter (\<lambda>(k', t). k' = k) (tasks s))"

subsection \<open>Request and Close as the steps of concurrent calls\<close>

text \<open>
  \<^verbatim>\<open>healClient\<close> holds no lock, and a call waits for the rest of the chain in three places:
  the forward of the Request (line 65), the opening of the monitor stream inside
  \<^verbatim>\<open>newEventLoop\<close> (line 71), and the forward of the Close (lines 76 and 89). So the body of
  a call is cut at these places, and what lies between two of them is one step:
  \<^item> entering Request: the snapshot, \<^verbatim>\<open>loadAndDelete\<close> and the cancel of the handle it
    found (lines 59 to 63); entering Close: \<^verbatim>\<open>loadAndDelete\<close> and the cancel (lines 86 to 88);
  \<^item> \<open>Request_entered\<close>: the forward (lines 65 to 68);
  \<^item> \<open>Request_forwarded\<close>: \<^verbatim>\<open>clientconn.Load\<close> and \<^verbatim>\<open>newEventLoop\<close> (lines 69 to 72);
  \<^item> \<open>Request_looped\<close>: the Close and the wrapped error when the loop did not start,
    \<^verbatim>\<open>store\<close> when it did (lines 73 to 81);
  \<^item> \<open>Close_entered\<close>: the forward of the Close (line 89).

  A \<open>pending\<close> call is a call between two steps, with the values of its local variables;
  \<open>advance\<close> runs its next step and gives either the call still pending or what it
  returns. The statements are those of \<open>healClient_Request\<close> and \<open>healClient_Close\<close>,
  in the same order.
\<close>

datatype pending =
    Request_entered next_client ctx request
  | Request_forwarded next_client ctx request "connection option"
  | Request_looped next_client ctx "connection option" "error + handle"
  | Close_entered next_client ctx "connection option"

datatype outcome =
    Request_returned "connection option \<times> error option"
  | Close_returned "empty option \<times> error option"

definition enter_Request :: "ctx \<Rightarrow> heal_state \<Rightarrow> heal_state" where
  "enter_Request c s0 =
     (let s1 = postpone_ContextWithValues c s0;
          (loaded, s2) = loadAndDelete c s1
      in case loaded of Some cancel \<Rightarrow> cancelEventLoop cancel s2 | None \<Rightarrow> s2)"

definition enter_Close :: "ctx \<Rightarrow> heal_state \<Rightarrow> heal_state" where
  "enter_Close c s0 =
     (let (loaded, s1) = loadAndDelete c s0
      in case loaded of Some cancel \<Rightarrow> cancelEventLoop cancel s1 | None \<Rightarrow> s1)"

fun advance :: "healClient \<Rightarrow> pending \<Rightarrow> heal_state \<Rightarrow> (pending + outcome) \<times> heal_state" where
  "advance h (Request_entered nx c request) s =
     (let s4 = s\<lparr>effects := effects s @ [NextRequest c request]\<rparr>;
          (conn, err) = next_Request nx c request
      in if err \<noteq> None then (Inr (Request_returned (None, err)), s4)
         else (Inl (Request_forwarded nx c request conn), s4))"
| "advance h (Request_forwarded nx c request conn) s =
     (case clientconn_Load nx c of
        Some cc \<Rightarrow>
          (case newEventLoop nx (WithValuesFromContext (chainCtx h) c) cc conn s of
             (res, s5) \<Rightarrow> (Inl (Request_looped nx c conn res), s5))
      | None \<Rightarrow> (Inr (Request_returned (conn, None)), s))"
| "advance h (Request_looped nx c conn res) s =
     (case res of
        Inl eventLoopErr \<Rightarrow>
          (Inr (Request_returned (None, Some (Wrap eventLoopErr ''unable to monitor''))),
           s\<lparr>effects := effects s @ [NextClose (Postponed c) conn]\<rparr>)
      | Inr cancel \<Rightarrow> (Inr (Request_returned (conn, None)), store c cancel s))"
| "advance h (Close_entered nx c conn) s =
     (Inr (Close_returned (next_Close nx c conn)),
      s\<lparr>effects := effects s @ [NextClose c conn]\<rparr>)"

text \<open>A pending call run for at most \<open>n\<close> steps with no other call in between.\<close>

fun finish :: "nat \<Rightarrow> healClient \<Rightarrow> pending \<Rightarrow> heal_state \<Rightarrow> (pending + outcome) \<times> heal_state" where
  "finish 0 h p s = (Inl p, s)"
| "finish (Suc n) h p s =
     (case advance h p s of
        (Inl p', s') \<Rightarrow> finish n h p' s'
      | (Inr out, s') \<Rightarrow> (Inr out, s'))"

text \<open>
  Calls that overlap with no restriction: every call is a thread, started by
  \<open>Start_Request\<close> or \<open>Start_Close\<close> (which runs its entering step) and moved one step at
  a time by \<open>Step\<close>, in any order. A thread that has returned is \<open>None\<close>.
\<close>

record free_state =
  fheal :: heal_state
  threads :: "pending option list"

datatype free_action =
    Start_Request next_client ctx request
  | Start_Close next_client ctx "connection option"
  | Step nat

fun free_step :: "healClient \<Rightarrow> free_state \<Rightarrow> free_action \<Rightarrow> free_state" where
  "free_step h \<sigma> (Start_Request nx c r) =
     \<sigma>\<lparr>fheal := enter_Request c (fheal \<sigma>),
       threads := threads \<sigma> @ [Some (Request_entered nx c r)]\<rparr>"
| "free_step h \<sigma> (Start_Close nx c conn) =
     \<sigma>\<lparr>fheal := enter_Close c (fheal \<sigma>),
       threads := threads \<sigma> @ [Some (Close_entered nx c conn)]\<rparr>"
| "free_step h \<sigma> (Step i) =
     (if i < length (threads \<sigma>)
      then (case threads \<sigma> ! i of
              None \<Rightarrow> \<sigma>
            | Some p \<Rightarrow>
                (case advance h p (fheal \<sigma>) of
                   (Inl p', s') \<Rightarrow> \<sigma>\<lparr>fheal := s', threads := (threads \<sigma>)[i := Some p']\<rparr>
                 | (Inr out, s') \<Rightarrow> \<sigma>\<lparr>fheal := s', threads := (threads \<sigma>)[i := None]\<rparr>))
      else \<sigma>)"

definition run_free :: "healClient \<Rightarrow> free_action list \<Rightarrow> free_state" where
  "run_free h acts = foldl (free_step h) \<lparr>fheal = init_heal, threads = []\<rparr> acts"

text \<open>
  Calls that overlap, but for one connection key arrive one at a time, which is what the
  element relies on: a key has at most one call in flight, a call for a key whose call
  is in flight waits (the action changes nothing and is made again later), and the steps
  of the calls of different keys interleave in any order.
\<close>

record chain_state =
  heal :: heal_state
  inflight :: "string \<Rightarrow> pending option"

datatype chain_action =
    Call_Request next_client ctx request
  | Call_Close next_client ctx "connection option"
  | Advance string

fun chain_step :: "healClient \<Rightarrow> chain_state \<Rightarrow> chain_action \<Rightarrow> chain_state" where
  "chain_step h \<sigma> (Call_Request nx c r) =
     (if inflight \<sigma> (metadata_key c) = None
      then \<sigma>\<lparr>heal := enter_Request c (heal \<sigma>),
             inflight := (inflight \<sigma>)(metadata_key c \<mapsto> Request_entered nx c r)\<rparr>
      else \<sigma>)"
| "chain_step h \<sigma> (Call_Close nx c conn) =
     (if inflight \<sigma> (metadata_key c) = None
      then \<sigma>\<lparr>heal := enter_Close c (heal \<sigma>),
             inflight := (inflight \<sigma>)(metadata_key c \<mapsto> Close_entered nx c conn)\<rparr>
      else \<sigma>)"
| "chain_step h \<sigma> (Advance k) =
     (case inflight \<sigma> k of
        None \<Rightarrow> \<sigma>
      | Some p \<Rightarrow>
          (case advance h p (heal \<sigma>) of
             (Inl p', s') \<Rightarrow> \<sigma>\<lparr>heal := s', inflight := (inflight \<sigma>)(k \<mapsto> p')\<rparr>
           | (Inr out, s') \<Rightarrow> \<sigma>\<lparr>heal := s', inflight := (inflight \<sigma>)(k := None)\<rparr>))"

definition init_chain :: chain_state where
  "init_chain = \<lparr>heal = init_heal, inflight = (\<lambda>k. None)\<rparr>"

definition run_chain :: "healClient \<Rightarrow> chain_action list \<Rightarrow> chain_state" where
  "run_chain h acts = foldl (chain_step h) init_chain acts"

section \<open>The fan-out broadcaster (pkg/networkservice/core/eventchannel/monitor_client.go)\<close>

subsection \<open>Data\<close>

text \<open>
  A Go channel of events: its buffer, its capacity and whether it was closed. Channels are
  named by the order in which they were made. A context is named by a number; a
  \<^verbatim>\<open>MonitorScopeSelector\<close> is its list of path segments.
\<close>

type_synonym chan_id = nat
type_synonym ctx_id = nat
type_synonym selector = "string list"

record 'e chan =
  buf :: "'e list"
  cap :: nat
  closed :: bool

text \<open>
  The three closures the file hands to \<^verbatim>\<open>updateExecutor.AsyncExec\<close>: the registration
  of a new fan-out channel (lines 55-70), its removal (lines 59-68) and the delivery of
  one event (lines 78-82).
\<close>

datatype 'e task = Register chan_id ctx_id | Remove chan_id | Deliver 'e

text \<open>What happens to the channels and to the live set, in the order it happens.\<close>

datatype 'e obs =
    Made chan_id
  | Registered chan_id
  | Begin 'e
  | Pushed chan_id 'e
  | Removed chan_id
  | Closed chan_id
  | Received chan_id 'e

text \<open>
  The broadcaster and the goroutines around it. \<open>eventCh\<close> holds the events sent upstream
  and not yet read by the event loop; \<open>updateExecutor\<close> holds the submitted tasks that
  have not started; \<open>sending\<close> holds the sends the running delivery task has still to
  make (empty when no delivery is running); \<open>waiting\<close> holds the goroutines blocked at
  \<^verbatim>\<open><-ctx.Done()\<close>, each with its context and its channel; \<open>cancelled\<close> holds the
  contexts that are done; \<open>panicked\<close> is set by a send on a closed channel or by closing
  a channel twice.
\<close>

record 'e monitorConnectionClient =
  eventCh :: "'e list"
  eventCh_closed :: bool
  fanoutEventChs :: "chan_id list"
  updateExecutor :: "'e task list"
  sending :: "(chan_id \<times> 'e) list"
  chans :: "'e chan list"
  waiting :: "(ctx_id \<times> chan_id) list"
  cancelled :: "ctx_id list"
  panicked :: bool
  trace :: "'e obs list"

subsection \<open>The Serialized Executor\<close>

text \<open>
  Modelled from the spec: \<^verbatim>\<open>serialize.Executor.AsyncExec\<close> (pkg/tools/serialize is not
  among the sources). Submitting a task enqueues it and returns; the task is never run on
  the caller's stack. Tasks run one at a time in submission order (see
  \<open>executor_step\<close>).
\<close>

definition AsyncExec :: "'e task \<Rightarrow> 'e monitorConnectionClient \<Rightarrow> 'e monitorConnectionClient" where
  "AsyncExec t m = m\<lparr>updateExecutor := updateExecutor m @ [t]\<rparr>"

subsection \<open>The operations of monitor_client.go\<close>

text \<open>
  \<^verbatim>\<open>NewMonitorConnectionClient(eventCh)\<close>: no fan-out channel, an idle executor, and the
  event loop started. The argument is what the upstream channel already holds.
\<close>

definition NewMonitorConnectionClient :: "'e list \<Rightarrow> 'e monitorConnectionClient" where
  "NewMonitorConnectionClient pending =
     \<lparr>eventCh = pending, eventCh_closed = False, fanoutEventChs = [], updateExecutor = [],
      sending = [], chans = [], waiting = [], cancelled = [], panicked = False, trace = []\<rparr>"

text \<open>
  \<^verbatim>\<open>MonitorConnections(ctx, in, opts...)\<close>: makes the channel, submits the registration
  and returns the stream over the channel with a nil error. The stream (a non-nil pointer
  made by \<^verbatim>\<open>NewMonitorConnectionMonitorConnectionsClient\<close>) is \<open>Some\<close> of its channel.
\<close>

definition MonitorConnections ::
  "ctx_id \<Rightarrow> selector option \<Rightarrow> 'e monitorConnectionClient
     \<Rightarrow> (chan_id option \<times> error option) \<times> 'e monitorConnectionClient" where
  "MonitorConnections c sel m =
     (let fanoutEventCh = length (chans m);
          m1 = m\<lparr>chans := chans m @ [\<lparr>buf = [], cap = 100, closed = False\<rparr>],
                 trace := trace m @ [Made fanoutEventCh]\<rparr>
      in ((Some fanoutEventCh, None), AsyncExec (Register fanoutEventCh c) m1))"

text \<open>
  One round of the loop in \<^verbatim>\<open>eventLoop\<close>: read the next upstream event and submit its
  delivery. With nothing to read the loop waits (or has ended, when upstream is closed).
\<close>

definition eventLoop_read :: "'e monitorConnectionClient \<Rightarrow> 'e monitorConnectionClient" where
  "eventLoop_read m =
     (case eventCh m of
        [] \<Rightarrow> m
      | e # rest \<Rightarrow> AsyncExec (Deliver e) (m\<lparr>eventCh := rest\<rparr>))"

text \<open>
  The goroutine a registration starts (lines 57-69), for channel \<open>ch\<close>: once its context
  is done it submits the removal and ends.
\<close>

definition ctx_Done :: "chan_id \<Rightarrow> 'e monitorConnectionClient \<Rightarrow> 'e monitorConnectionClient" where
  "ctx_Done ch m =
     (case filter (\<lambda>(c, ch'). ch' = ch \<and> c \<in> set (cancelled m)) (waiting m) of
        [] \<Rightarrow> m
      | w # ws \<Rightarrow> AsyncExec (Remove ch) (m\<lparr>waiting := remove1 w (waiting m)\<rparr>))"

text \<open>
  One step of the executor's worker. While a delivery runs, the step is its next send
  \<^verbatim>\<open>fanoutEventCh <- e\<close>: it panics on a closed channel, appends to the buffer when
  there is room, and blocks (no change) when the buffer is full. Otherwise the step
  starts the next submitted task; a registration and a removal run to their end in one
  step, a delivery reads \<open>fanoutEventChs\<close> once (the \<^verbatim>\<open>range\<close>) and then sends.
\<close>

definition executor_step :: "'e monitorConnectionClient \<Rightarrow> 'e monitorConnectionClient" where
  "executor_step m =
     (case sending m of
        (ch, e) # rest \<Rightarrow>
          if closed (chans m ! ch) then m\<lparr>panicked := True\<rparr>
          else if length (buf (chans m ! ch)) < cap (chans m ! ch)
          then m\<lparr>chans := (chans m)[ch := (chans m ! ch)\<lparr>buf := buf (chans m ! ch) @ [e]\<rparr>],
                 sending := rest,
                 trace := trace m @ [Pushed ch e]\<rparr>
          else m
      | [] \<Rightarrow>
          (case updateExecutor m of
             [] \<Rightarrow> m
           | Register ch c # q \<Rightarrow>
               m\<lparr>updateExecutor := q,
                 fanoutEventChs := fanoutEventChs m @ [ch],
                 waiting := waiting m @ [(c, ch)],
                 trace := trace m @ [Registered ch]\<rparr>
           | Remove ch # q \<Rightarrow>
               (let m1 = m\<lparr>updateExecutor := q,
                            fanoutEventChs := filter (\<lambda>ch'. ch' \<noteq> ch) (fanoutEventChs m),
                            trace := trace m @ [Removed ch]\<rparr>
                in if closed (chans m1 ! ch) then m1\<lparr>panicked := True\<rparr>
                   else m1\<lparr>chans := (chans m1)[ch := (chans m1 ! ch)\<lparr>closed := True\<rparr>],
                          trace := trace m1 @ [Closed ch]\<rparr>)
           | Deliver e # q \<Rightarrow>
               m\<lparr>updateExecutor := q,
                 sending := map (\<lambda>ch. (ch, e)) (fanoutEventChs m),
                 trace := trace m @ [Begin e]\<rparr>))"

text \<open>A subscriber takes the next event from its stream, when the buffer holds one.\<close>

definition subscriber_Recv :: "chan_id \<Rightarrow> 'e monitorConnectionClient \<Rightarrow> 'e monitorConnectionClient" where
  "subscriber_Recv ch m =
     (if ch < length (chans m)
      then (case buf (chans m ! ch) of
              [] \<Rightarrow> m
            | e # rest \<Rightarrow>
                m\<lparr>chans := (chans m)[ch := (chans m ! ch)\<lparr>buf := rest\<rparr>],
                  trace := trace m @ [Received ch e]\<rparr>)
      else m)"

text \<open>
  Everything that can happen next: a caller subscribes, the producer sends an event
  upstream or closes upstream, the event loop reads, a context is cancelled, a waiting
  goroutine sees its context done, the executor makes a step, a subscriber receives.
  A panic ends the process. A send on the closed upstream channel is the producer's
  fault and leaves the broadcaster as it is.
\<close>

datatype 'e action =
    Subscribe ctx_id "selector option"
  | UpstreamSend 'e
  | UpstreamClose
  | LoopRead
  | CtxCancel ctx_id
  | CtxDone chan_id
  | ExecutorStep
  | SubscriberRecv chan_id

fun step :: "'e monitorConnectionClient \<Rightarrow> 'e action \<Rightarrow> 'e monitorConnectionClient" where
  "step m (Subscribe c sel) = (if panicked m then m else snd (MonitorConnections c sel m))"
| "step m (UpstreamSend e) =
     (if panicked m \<or> eventCh_closed m then m else m\<lparr>eventCh := eventCh m @ [e]\<rparr>)"
| "step m UpstreamClose = (if panicked m then m else m\<lparr>eventCh_closed := True\<rparr>)"
| "step m LoopRead = (if panicked m then m else eventLoop_read m)"
| "step m (CtxCancel c) = (if panicked m then m else m\<lparr>cancelled := c # cancelled m\<rparr>)"
| "step m (CtxDone ch) = (if panicked m then m else ctx_Done ch m)"
| "step m ExecutorStep = (if panicked m then m else executor_step m)"
| "step m (SubscriberRecv ch) = (if panicked m then m else subscriber_Recv ch m)"

definition run :: "'e list \<Rightarrow> 'e action list \<Rightarrow> 'e monitorConnectionClient" where
  "run pending acts = foldl step (NewMonitorConnectionClient pending) acts"

subsection \<open>Reading a trace\<close>

text \<open>The events pushed to a channel, and the events a subscriber took from it.\<close>

fun pushed_ev :: "chan_id \<Rightarrow> 'e obs \<Rightarrow> 'e list" where
  "pushed_ev ch (Pushed c e) = (if c = ch then [e] else [])"
| "pushed_ev ch x = []"

definition pushed :: "chan_id \<Rightarrow> 'e obs list \<Rightarrow> 'e list" where
  "pushed ch tr = concat (map (pushed_ev ch) tr)"

fun received_ev :: "chan_id \<Rightarrow> 'e obs \<Rightarrow> 'e list" where
  "received_ev ch (Received c e) = (if c = ch then [e] else [])"
| "received_ev ch x = []"

definition received :: "chan_id \<Rightarrow> 'e obs list \<Rightarrow> 'e list" where
  "received ch tr = concat (map (received_ev ch) tr)"

text \<open>The events whose delivery has begun, in the order it began.\<close>

fun begun_ev :: "'e obs \<Rightarrow> 'e list" where
  "begun_ev (Begin e) = [e]"
| "begun_ev x = []"

definition begun :: "'e obs list \<Rightarrow> 'e list" where
  "begun tr = concat (map begun_ev tr)"

text \<open>
  The events owed to a channel: those whose delivery began while the channel was in the
  live set, that is after its registration ran and before its removal ran.
\<close>

fun track :: "chan_id \<Rightarrow> bool \<times> 'e list \<Rightarrow> 'e obs \<Rightarrow> bool \<times> 'e list" where
  "track ch (live, acc) (Registered c) = (if c = ch then (True, acc) else (live, acc))"
| "track ch (live, acc) (Removed c) = (if c = ch then (False, acc) else (live, acc))"
| "track ch (live, acc) (Begin e) = (if live then (live, acc @ [e]) else (live, acc))"
| "track ch (live, acc) x = (live, acc)"

definition owed :: "chan_id \<Rightarrow> 'e obs list \<Rightarrow> 'e list" where
  "owed ch tr = snd (foldl (track ch) (False, []) tr)"

text \<open>What the trace holds after the (first) close of a channel.\<close>

definition after_close :: "chan_id \<Rightarrow> 'e obs list \<Rightarrow> 'e obs list" where
  "after_close ch tr = tl (dropWhile (\<lambda>x. x \<noteq> Closed ch) tr)"

text \<open>The events sent upstream by a schedule, while upstream is open.\<close>

fun upstream_sent :: "'e action list \<Rightarrow> 'e list" where
  "upstream_sent [] = []"
| "upstream_sent (UpstreamSend e # acts) = e # upstream_sent acts"
| "upstream_sent (UpstreamClose # acts) = []"
| "upstream_sent (a # acts) = upstream_sent acts"


section \<open>Definitions used to state the properties\<close>

subsection \<open>The healing element\<close>

text \<open>The calls one Request or one Close makes, started in state \<open>s\<close>.\<close>

definition Request_calls :: "healClient \<Rightarrow> next_client \<Rightarrow> ctx \<Rightarrow> request \<Rightarrow> heal_state \<Rightarrow> effect list" where
  "Request_calls h nx c r s = new_effects s (snd (healClient_Request h nx c r s))"

definition Close_calls :: "healClient \<Rightarrow> next_client \<Rightarrow> ctx \<Rightarrow> connection option \<Rightarrow> heal_state \<Rightarrow> effect list" where
  "Close_calls h nx c conn s = new_effects s (snd (healClient_Close h nx c conn s))"

text \<open>
  The invariant of the element's state: every running monitoring task is the one whose
  cancel function is stored for its connection, stored handles were handed out, and no
  task is listed twice.
\<close>

definition heal_inv :: "heal_state \<Rightarrow> bool" where
  "heal_inv s =
     ((\<forall>k t. (k, t) \<in> set (tasks s) \<longrightarrow> stored s k = Some t)
      \<and> (\<forall>k t. stored s k = Some t \<longrightarrow> t < fresh s)
      \<and> distinct (tasks s))"

text \<open>
  The order of steps as the specification of Request lists them: cancel the existing
  monitoring task, then capture the snapshot of the context values, then forward.
\<close>

definition spec_Request_order :: "effect \<Rightarrow> effect \<Rightarrow> effect \<Rightarrow> effect list \<Rightarrow> bool" where
  "spec_Request_order cancel snapshot forward calls =
     (before cancel snapshot calls \<and> before snapshot forward calls)"

text \<open>
  Concrete inputs: an element, a call context of connection \<open>c1\<close>, and four chains: one
  where everything succeeds, one whose Request fails, one where the monitor stream cannot
  be opened, one whose Close fails.
\<close>

definition example_client :: healClient where
  "example_client =
     \<lparr>chainCtx = Ctx ''chain'' [], livenessCheck = None,
      livenessCheckInterval = 2000, livenessCheckTimeout = 1000\<rparr>"

definition example_ctx :: ctx where
  "example_ctx = Ctx ''c1'' [''token'']"

definition chain_ok :: next_client where
  "chain_ok = \<lparr>next_Request = (\<lambda>c r. (Some r, None)),
               next_Close = (\<lambda>c conn. (Some (), None)),
               clientconn_Load = (\<lambda>c. Some 7),
               monitor_open = (\<lambda>c cc conn. None)\<rparr>"

definition chain_forward_fails :: next_client where
  "chain_forward_fails = chain_ok\<lparr>next_Request := (\<lambda>c r. (None, Some (Error ''no endpoint'')))\<rparr>"

definition chain_monitor_fails :: next_client where
  "chain_monitor_fails = chain_ok\<lparr>monitor_open := (\<lambda>c cc conn. Some (Error ''no stream''))\<rparr>"

definition chain_close_fails :: next_client where
  "chain_close_fails = chain_ok\<lparr>next_Close := (\<lambda>c conn. (None, Some (Error ''gone'')))\<rparr>"

text \<open>
  For calls that arrive one at a time per key: the context of a pending call, the task it
  has started and not yet stored, and the task a key is expected to have: the one its
  pending call has started if a call is in flight, the one whose handle is stored
  otherwise.
\<close>

fun pending_ctx :: "pending \<Rightarrow> ctx" where
  "pending_ctx (Request_entered nx c r) = c"
| "pending_ctx (Request_forwarded nx c r conn) = c"
| "pending_ctx (Request_looped nx c conn res) = c"
| "pending_ctx (Close_entered nx c conn) = c"

fun pending_task :: "pending \<Rightarrow> handle option" where
  "pending_task (Request_looped nx c conn (Inr t)) = Some t"
| "pending_task p = None"

definition expected :: "chain_state \<Rightarrow> string \<Rightarrow> handle option" where
  "expected \<sigma> k = (case inflight \<sigma> k of None \<Rightarrow> stored (heal \<sigma>) k | Some p \<Rightarrow> pending_task p)"

text \<open>
  What holds between any two steps of such calls: a running task is the expected one of
  its key; expected and stored handles have been handed out; a call in flight is filed
  under the key of its context; no task is listed twice; a key with a call in flight has
  no stored handle.
\<close>

definition chain_inv :: "chain_state \<Rightarrow> bool" where
  "chain_inv \<sigma> =
     ((\<forall>k t. (k, t) \<in> set (tasks (heal \<sigma>)) \<longrightarrow> expected \<sigma> k = Some t)
      \<and> (\<forall>k t. expected \<sigma> k = Some t \<longrightarrow> t < fresh (heal \<sigma>))
      \<and> (\<forall>k t. stored (heal \<sigma>) k = Some t \<longrightarrow> t < fresh (heal \<sigma>))
      \<and> (\<forall>k p. inflight \<sigma> k = Some p \<longrightarrow> metadata_key (pending_ctx p) = k)
      \<and> distinct (tasks (heal \<sigma>))
      \<and> (\<forall>k p. inflight \<sigma> k = Some p \<longrightarrow> stored (heal \<sigma>) k = None))"

text \<open>
  A call made with no other call in between, as steps: it enters and runs to its return.
  The state with no call in flight.
\<close>

fun call_steps :: "call \<Rightarrow> chain_action list" where
  "call_steps (Request nx c r) =
     [Call_Request nx c r, Advance (metadata_key c), Advance (metadata_key c),
      Advance (metadata_key c)]"
| "call_steps (Close nx c conn) = [Call_Close nx c conn, Advance (metadata_key c)]"

definition idle_chain :: "heal_state \<Rightarrow> chain_state" where
  "idle_chain s = \<lparr>heal = s, inflight = (\<lambda>k. None)\<rparr>"

text \<open>
  Two Requests for \<open>c1\<close> that overlap: both enter (neither finds a handle), both forward,
  both start an event loop, both store.
\<close>

definition overlapping_Requests :: "free_action list" where
  "overlapping_Requests =
     [Start_Request chain_ok example_ctx ''r1'', Start_Request chain_ok example_ctx ''r2'',
      Step 0, Step 0, Step 1, Step 1, Step 0, Step 1]"

text \<open>
  Requests for \<open>c1\<close> and \<open>c2\<close> whose steps interleave, while a second Request for \<open>c1\<close>
  waits for the first to return.
\<close>

definition interleaved_keys :: "chain_action list" where
  "interleaved_keys =
     [Call_Request chain_ok example_ctx ''r1'', Call_Request chain_ok (Ctx ''c2'' []) ''r2'',
      Call_Request chain_ok example_ctx ''r3'',
      Advance ''c1'', Advance ''c2'', Advance ''c1'', Advance ''c2'', Advance ''c1'',
      Call_Request chain_ok example_ctx ''r3'', Advance ''c1'', Advance ''c1'', Advance ''c1'']"

subsection \<open>The broadcaster\<close>

text \<open>
  Every fan-out channel goes through four stages, and is in exactly one of them: its
  registration is submitted; its goroutine waits for the context; its removal is
  submitted; it is closed. The functions below count, for a channel, the submitted
  registrations, the waiting goroutines, the submitted removals, and whether it is closed.
\<close>

fun is_Register :: "chan_id \<Rightarrow> 'e task \<Rightarrow> bool" where
  "is_Register ch (Register c x) = (c = ch)"
| "is_Register ch t = False"

definition reg_tokens :: "chan_id \<Rightarrow> 'e task list \<Rightarrow> nat" where
  "reg_tokens ch q = length (filter (is_Register ch) q)"

definition wait_tokens :: "chan_id \<Rightarrow> (ctx_id \<times> chan_id) list \<Rightarrow> nat" where
  "wait_tokens ch w = length (filter (\<lambda>(c, ch'). ch' = ch) w)"

definition rem_tokens :: "chan_id \<Rightarrow> 'e task list \<Rightarrow> nat" where
  "rem_tokens ch q = length (filter (\<lambda>t. t = Remove ch) q)"

definition closed_token :: "chan_id \<Rightarrow> 'e chan list \<Rightarrow> nat" where
  "closed_token ch cs = (if ch < length cs \<and> closed (cs ! ch) then 1 else 0)"

text \<open>
  The invariant of the broadcaster: no panic; every channel made is in exactly one stage
  (and a channel not made in none); the live set holds exactly the channels whose
  goroutine waits or whose removal is submitted, each once; the running delivery sends
  only to live channels; every channel has capacity 100 and holds at most 100 events.
\<close>

definition bcast_inv :: "'e monitorConnectionClient \<Rightarrow> bool" where
  "bcast_inv m =
     (\<not> panicked m
      \<and> (\<forall>ch. reg_tokens ch (updateExecutor m) + wait_tokens ch (waiting m)
                + rem_tokens ch (updateExecutor m) + closed_token ch (chans m)
              = (if ch < length (chans m) then 1 else 0))
      \<and> (\<forall>ch. ch \<in> set (fanoutEventChs m)
              \<longleftrightarrow> 0 < wait_tokens ch (waiting m) + rem_tokens ch (updateExecutor m))
      \<and> distinct (fanoutEventChs m)
      \<and> fst ` set (sending m) \<subseteq> set (fanoutEventChs m)
      \<and> (\<forall>ch < length (chans m). cap (chans m ! ch) = 100 \<and> length (buf (chans m ! ch)) \<le> 100))"

text \<open>
  How often a channel was closed according to the trace, and whether the trace has the
  channel in the live set (registered and not removed).
\<close>

definition closes :: "chan_id \<Rightarrow> 'e obs list \<Rightarrow> nat" where
  "closes ch tr = length (filter (\<lambda>x. x = Closed ch) tr)"

definition live_in :: "chan_id \<Rightarrow> 'e obs list \<Rightarrow> bool" where
  "live_in ch tr = fst (foldl (track ch) (False, []) tr)"

text \<open>
  The invariant that ties the trace to the state, for one channel: it was closed once if
  it is closed and never otherwise; its close follows its removal from the live set;
  nothing was pushed to it after its close; the trace and the state agree on the live
  set; the events pushed to it, with the sends to it that the running delivery still has
  to make, are the events owed to it; what its subscriber received, followed by what its
  buffer holds, is what was pushed to it.
\<close>

definition trace_ok :: "'e monitorConnectionClient \<Rightarrow> chan_id \<Rightarrow> bool" where
  "trace_ok m ch =
     (closes ch (trace m) = closed_token ch (chans m)
      \<and> (Closed ch \<in> set (trace m) \<longrightarrow> before (Removed ch) (Closed ch) (trace m))
      \<and> pushed ch (after_close ch (trace m)) = []
      \<and> live_in ch (trace m) = (ch \<in> set (fanoutEventChs m))
      \<and> pushed ch (trace m) @ map snd (filter (\<lambda>(c, e). c = ch) (sending m)) = owed ch (trace m)
      \<and> (if ch < length (chans m)
          then received ch (trace m) @ buf (chans m ! ch) = pushed ch (trace m)
          else pushed ch (trace m) = [] \<and> received ch (trace m) = []))"

definition trace_inv :: "'e monitorConnectionClient \<Rightarrow> bool" where
  "trace_inv m = (\<forall>ch. trace_ok m ch)"

text \<open>
  The events of the submitted deliveries, and the events on their way from upstream to
  the subscribers: delivery begun, delivery submitted, or still in the upstream channel.
\<close>

fun deliver_ev :: "'e task \<Rightarrow> 'e list" where
  "deliver_ev (Deliver e) = [e]"
| "deliver_ev t = []"

definition delivers :: "'e task list \<Rightarrow> 'e list" where
  "delivers q = concat (map deliver_ev q)"

definition flow :: "'e monitorConnectionClient \<Rightarrow> 'e list" where
  "flow m = begun (trace m) @ delivers (updateExecutor m) @ eventCh m"

text \<open>
  A concrete schedule: two subscribers (the second with a selector) are registered, the
  event \<open>down\<close> is delivered to both, the second subscriber's context is cancelled and
  its channel removed and closed, the event \<open>up\<close> is delivered, and the first
  subscriber takes one event.
\<close>

definition example_schedule :: "string action list" where
  "example_schedule =
     [Subscribe 1 None, Subscribe 2 (Some [''c1'']), ExecutorStep, ExecutorStep,
      UpstreamSend ''down'', LoopRead, ExecutorStep, ExecutorStep, ExecutorStep,
      CtxCancel 2, CtxDone 1, ExecutorStep,
      UpstreamSend ''up'', LoopRead, ExecutorStep, ExecutorStep, SubscriberRecv 0]"

text \<open>
  A subscriber that never receives: after \<open>n\<close> rounds of send, read, begin and push its
  buffer holds \<open>n\<close> events.
\<close>

definition flood_round :: "string action list" where
  "flood_round = [UpstreamSend ''e'', LoopRead, ExecutorStep, ExecutorStep]"

definition flood_schedule :: "nat \<Rightarrow> string action list" where
  "flood_schedule n = [Subscribe 1 None, ExecutorStep] @ concat (replicate n flood_round)"

definition flooded :: "nat \<Rightarrow> string monitorConnectionClient" where
  "flooded n =
     \<lparr>eventCh = [], eventCh_closed = False, fanoutEventChs = [0], updateExecutor = [],
      sending = [], chans = [\<lparr>buf = replicate n ''e'', cap = 100, closed = False\<rparr>],
      waiting = [(1, 0)], cancelled = [], panicked = False,
      trace = [Made 0, Registered 0] @ concat (replicate n [Begin ''e'', Pushed 0 ''e''])\<rparr>"

text \<open>
  The actions of the broadcaster's own tasks and of the subscribers: an executor step, a
  read of the event loop, a receive. No new subscription, upstream event or cancellation
  is among them.
\<close>

definition quiet :: "'e action \<Rightarrow> bool" where
  "quiet a = (case a of ExecutorStep \<Rightarrow> True | LoopRead \<Rightarrow> True | SubscriberRecv ch \<Rightarrow> True | _ \<Rightarrow> False)"

text \<open>
  Two subscribers, the first of which never receives while the second takes every event:
  after \<open>n\<close> rounds the first buffer holds \<open>n\<close> events and the second none. After 100
  rounds the first buffer is full, and the delivery of one more event \<open>E\<close> begins.
\<close>

definition jam_round :: "string action list" where
  "jam_round =
     [UpstreamSend ''e'', LoopRead, ExecutorStep, ExecutorStep, ExecutorStep, SubscriberRecv 1]"

definition jam_schedule :: "nat \<Rightarrow> string action list" where
  "jam_schedule n =
     [Subscribe 1 None, Subscribe 2 None, ExecutorStep, ExecutorStep]
     @ concat (replicate n jam_round)"

definition jammed :: "nat \<Rightarrow> string monitorConnectionClient" where
  "jammed n =
     \<lparr>eventCh = [], eventCh_closed = False, fanoutEventChs = [0, 1], updateExecutor = [],
      sending = [],
      chans = [\<lparr>buf = replicate n ''e'', cap = 100, closed = False\<rparr>,
               \<lparr>buf = [], cap = 100, closed = False\<rparr>],
      waiting = [(1, 0), (2, 1)], cancelled = [], panicked = False,
      trace = [Made 0, Made 1, Registered 0, Registered 1]
              @ concat (replicate n [Begin ''e'', Pushed 0 ''e'', Pushed 1 ''e'', Received 1 ''e''])\<rparr>"

definition jam_blocked_schedule :: "string action list" where
  "jam_blocked_schedule = jam_schedule 100 @ [UpstreamSend ''E'', LoopRead, ExecutorStep]"

text \<open>
  One subscriber that never receives: once its buffer is full the delivery of one more
  event begins, and then its context is cancelled and the waiting goroutine submits the
  removal.
\<close>

definition flood_cancelled_schedule :: "string action list" where
  "flood_cancelled_schedule =
     flood_schedule 100 @ [UpstreamSend ''e'', LoopRead, ExecutorStep, CtxCancel 1, CtxDone 0]"


section \<open>Properties of the healing element\<close>

subsection \<open>What one call does\<close>

lemma Request_effects:
  "new_effects s (snd (healClient_Request h nx c r s)) =
     [PostponeSnapshot c]
     @ (case stored s (metadata_key c) of None \<Rightarrow> [] | Some old \<Rightarrow> [Cancelled old])
     @ [NextRequest c r]
     @ (if snd (next_Request nx c r) \<noteq> None then []
        else case clientconn_Load nx c of
               None \<Rightarrow> []
             | Some cc \<Rightarrow>
                 NewEventLoop (WithValuesFromContext (chainCtx h) c) cc (fst (next_Request nx c r))
                 # (case monitor_open nx (WithValuesFromContext (chainCtx h) c) cc
                           (fst (next_Request nx c r)) of
                      Some e \<Rightarrow> [NextClose (Postponed c) (fst (next_Request nx c r))]
                    | None \<Rightarrow> [Stored (metadata_key c) (fresh s)]))"
  by (simp add: healClient_Request_def new_effects_def postpone_ContextWithValues_def
      loadAndDelete_def cancelEventLoop_def newEventLoop_def store_def Let_def
      split: prod.splits option.splits sum.splits)

lemma Close_effects:
  "new_effects s (snd (healClient_Close h nx c conn s)) =
     (case stored s (metadata_key c) of None \<Rightarrow> [] | Some old \<Rightarrow> [Cancelled old])
     @ [NextClose c conn]"
  by (simp add: healClient_Close_def new_effects_def loadAndDelete_def cancelEventLoop_def
      Let_def split: prod.splits option.splits)

subsection \<open>The invariant\<close>

lemma heal_inv_init: "heal_inv init_heal"
  by (simp add: heal_inv_def init_heal_def)

lemma heal_inv_Request:
  assumes "heal_inv s"
  shows "heal_inv (snd (healClient_Request h nx c r s))"
  using assms
  unfolding heal_inv_def healClient_Request_def postpone_ContextWithValues_def
    loadAndDelete_def cancelEventLoop_def newEventLoop_def store_def Let_def
  by (auto split: prod.splits option.splits sum.splits if_splits simp: less_Suc_eq)

lemma heal_inv_Close:
  assumes "heal_inv s"
  shows "heal_inv (snd (healClient_Close h nx c conn s))"
  using assms
  unfolding heal_inv_def healClient_Close_def loadAndDelete_def cancelEventLoop_def Let_def
  by (auto split: prod.splits option.splits if_splits)

lemma heal_inv_apply: "heal_inv s \<Longrightarrow> heal_inv (apply_call h s a)"
  by (cases a) (simp_all add: heal_inv_Request heal_inv_Close)

lemma heal_inv_foldl: "heal_inv s \<Longrightarrow> heal_inv (foldl (apply_call h) s calls)"
  by (induction calls arbitrary: s) (simp_all add: heal_inv_apply)

lemma heal_inv_run: "heal_inv (run_calls h calls)"
  by (simp add: run_calls_def heal_inv_foldl heal_inv_init)

lemma distinct_same_le1:
  "distinct xs \<Longrightarrow> \<forall>x \<in> set xs. x = a \<Longrightarrow> length xs \<le> 1"
  by (cases xs; cases "tl xs") auto

lemma heal_inv_tasks_of:
  assumes "heal_inv s"
  shows "length (tasks_of k s) \<le> 1" and "t \<in> set (tasks_of k s) \<Longrightarrow> stored s k = Some t"
proof -
  show st: "stored s k = Some t" if "t \<in> set (tasks_of k s)" for t
    using that assms by (auto simp: tasks_of_def heal_inv_def)
  have d: "distinct (filter (\<lambda>(k', t). k' = k) (tasks s))"
    using assms by (simp add: heal_inv_def)
  show "length (tasks_of k s) \<le> 1"
  proof (cases "stored s k")
    case None
    then have "tasks_of k s = []" using st by (cases "tasks_of k s") auto
    then show ?thesis by simp
  next
    case (Some t0)
    have "\<forall>x \<in> set (filter (\<lambda>(k', t). k' = k) (tasks s)). x = (k, t0)"
      using assms Some by (auto simp: heal_inv_def)
    from distinct_same_le1[OF d this] show ?thesis by (simp add: tasks_of_def)
  qed
qed

subsection \<open>Unfolding\<close>

lemmas heal_defs = healClient_Request_def healClient_Close_def postpone_ContextWithValues_def
  loadAndDelete_def cancelEventLoop_def newEventLoop_def store_def new_effects_def
  Request_calls_def Close_calls_def run_calls_def init_heal_def tasks_of_def

lemmas example_defs = example_client_def example_ctx_def chain_ok_def chain_forward_fails_def
  chain_monitor_fails_def chain_close_fails_def

subsection \<open>At most one monitoring task per connection\<close>

lemma Request_cancels_old:
  assumes "heal_inv s" "stored s (metadata_key c) = Some old"
  shows "old \<notin> snd ` set (tasks (snd (healClient_Request h nx c r s)))"
proof -
  have "old < fresh s" using assms by (auto simp: heal_inv_def)
  then show ?thesis
    using assms(2)
    by (auto simp: heal_defs Let_def split: prod.splits option.splits sum.splits)
qed

lemma Close_stored: "stored (snd (healClient_Close h nx c conn s)) (metadata_key c) = None"
  by (simp add: heal_defs Let_def split: prod.splits option.splits)

lemma Close_tasks_of:
  assumes "heal_inv s"
  shows "tasks_of (metadata_key c) (snd (healClient_Close h nx c conn s)) = []"
proof -
  have "heal_inv (snd (healClient_Close h nx c conn s))" using assms by (rule heal_inv_Close)
  from heal_inv_tasks_of(2)[OF this, of _ "metadata_key c"] Close_stored[of h nx c conn s]
  have "set (tasks_of (metadata_key c) (snd (healClient_Close h nx c conn s))) = {}"
    by fastforce
  then show ?thesis by simp
qed

text \<open>The steps of a call, run with no other call in between, are the call.\<close>

lemma Request_in_steps:
  "finish 3 h (Request_entered nx c r) (enter_Request c s)
     = (Inr (Request_returned (fst (healClient_Request h nx c r s))),
        snd (healClient_Request h nx c r s))"
  by (simp add: numeral_3_eq_3 enter_Request_def healClient_Request_def Let_def
      split: prod.splits option.splits sum.splits)

lemma Close_in_steps:
  "finish 1 h (Close_entered nx c conn) (enter_Close c s)
     = (Inr (Close_returned (fst (healClient_Close h nx c conn s))),
        snd (healClient_Close h nx c conn s))"
  by (simp add: enter_Close_def healClient_Close_def Let_def split: prod.splits option.splits)

text \<open>The invariant of calls that arrive one at a time per key.\<close>

lemma chain_inv_init: "chain_inv init_chain"
  by (simp add: chain_inv_def init_chain_def init_heal_def expected_def)

lemma enter_Request_fields:
  "stored (enter_Request c s) = (stored s)(metadata_key c := None)"
  "tasks (enter_Request c s) =
     (case stored s (metadata_key c) of
        None \<Rightarrow> tasks s
      | Some old \<Rightarrow> filter (\<lambda>(k, t). t \<noteq> old) (tasks s))"
  "fresh (enter_Request c s) = fresh s"
  by (simp_all add: enter_Request_def postpone_ContextWithValues_def loadAndDelete_def
      cancelEventLoop_def Let_def split: option.splits)

lemma enter_Close_fields:
  "stored (enter_Close c s) = (stored s)(metadata_key c := None)"
  "tasks (enter_Close c s) =
     (case stored s (metadata_key c) of
        None \<Rightarrow> tasks s
      | Some old \<Rightarrow> filter (\<lambda>(k, t). t \<noteq> old) (tasks s))"
  "fresh (enter_Close c s) = fresh s"
  by (simp_all add: enter_Close_def loadAndDelete_def cancelEventLoop_def Let_def
      split: option.splits)

lemma chain_invD:
  assumes "chain_inv \<sigma>"
  shows "(k, t) \<in> set (tasks (heal \<sigma>)) \<Longrightarrow> expected \<sigma> k = Some t"
    and "expected \<sigma> k = Some t \<Longrightarrow> t < fresh (heal \<sigma>)"
    and "stored (heal \<sigma>) k = Some t \<Longrightarrow> t < fresh (heal \<sigma>)"
    and "inflight \<sigma> k = Some p \<Longrightarrow> metadata_key (pending_ctx p) = k"
    and "distinct (tasks (heal \<sigma>))"
    and "inflight \<sigma> k = Some p \<Longrightarrow> stored (heal \<sigma>) k = None"
  using assms unfolding chain_inv_def by blast+

lemma chain_invI:
  assumes "\<And>k t. (k, t) \<in> set (tasks (heal \<sigma>)) \<Longrightarrow> expected \<sigma> k = Some t"
    and "\<And>k t. expected \<sigma> k = Some t \<Longrightarrow> t < fresh (heal \<sigma>)"
    and "\<And>k t. stored (heal \<sigma>) k = Some t \<Longrightarrow> t < fresh (heal \<sigma>)"
    and "\<And>k p. inflight \<sigma> k = Some p \<Longrightarrow> metadata_key (pending_ctx p) = k"
    and "distinct (tasks (heal \<sigma>))"
    and "\<And>k p. inflight \<sigma> k = Some p \<Longrightarrow> stored (heal \<sigma>) k = None"
  shows "chain_inv \<sigma>"
  using assms unfolding chain_inv_def by blast

text \<open>Entering a call whose key has no call in flight.\<close>

lemma chain_inv_enter:
  assumes inv: "chain_inv \<sigma>" and free: "inflight \<sigma> k0 = None"
    and st: "stored s' = (stored (heal \<sigma>))(k0 := None)"
    and ts: "tasks s' =
       (case stored (heal \<sigma>) k0 of
          None \<Rightarrow> tasks (heal \<sigma>)
        | Some old \<Rightarrow> filter (\<lambda>(k, t). t \<noteq> old) (tasks (heal \<sigma>)))"
    and fr: "fresh s' = fresh (heal \<sigma>)"
    and p: "pending_task p = None" "metadata_key (pending_ctx p) = k0"
  shows "chain_inv (\<sigma>\<lparr>heal := s', inflight := (inflight \<sigma>)(k0 \<mapsto> p)\<rparr>)"
proof (rule chain_invI)
  let ?\<sigma>' = "\<sigma>\<lparr>heal := s', inflight := (inflight \<sigma>)(k0 \<mapsto> p)\<rparr>"
  have sub: "set (tasks s') \<subseteq> set (tasks (heal \<sigma>))"
    by (auto simp: ts split: option.splits)
  have none: "(k0, t) \<notin> set (tasks s')" for t
  proof
    assume a: "(k0, t) \<in> set (tasks s')"
    with sub have "(k0, t) \<in> set (tasks (heal \<sigma>))" by blast
    from chain_invD(1)[OF inv this] free have "stored (heal \<sigma>) k0 = Some t"
      by (simp add: expected_def)
    with a show False by (simp add: ts)
  qed
  have ex: "expected ?\<sigma>' k = (if k = k0 then None else expected \<sigma> k)" for k
    by (auto simp: expected_def p st split: option.splits)
  show "expected ?\<sigma>' k = Some t" if "(k, t) \<in> set (tasks (heal ?\<sigma>'))" for k t
  proof -
    from that have m: "(k, t) \<in> set (tasks s')" by simp
    with none have "k \<noteq> k0" by auto
    moreover from m sub have "expected \<sigma> k = Some t" using chain_invD(1)[OF inv] by blast
    ultimately show ?thesis by (simp add: ex)
  qed
  show "t < fresh (heal ?\<sigma>')" if "expected ?\<sigma>' k = Some t" for k t
    using that chain_invD(2)[OF inv, of k t] by (simp add: ex fr split: if_splits)
  show "t < fresh (heal ?\<sigma>')" if "stored (heal ?\<sigma>') k = Some t" for k t
    using that chain_invD(3)[OF inv, of k t] by (simp add: st fr split: if_splits)
  show "metadata_key (pending_ctx q) = k" if "inflight ?\<sigma>' k = Some q" for k q
    using that chain_invD(4)[OF inv, of k q] p by (simp split: if_splits)
  show "distinct (tasks (heal ?\<sigma>'))"
    using chain_invD(5)[OF inv] by (simp add: ts split: option.splits)
  show "stored (heal ?\<sigma>') k = None" if "inflight ?\<sigma>' k = Some q" for k q
    using that chain_invD(6)[OF inv, of k] by (auto simp: st split: if_splits)
qed

lemma chain_inv_Call_Request:
  assumes "chain_inv \<sigma>"
  shows "chain_inv (chain_step h \<sigma> (Call_Request nx c r))"
proof (cases "inflight \<sigma> (metadata_key c) = None")
  case True
  from chain_inv_enter[where p = "Request_entered nx c r" and s' = "enter_Request c (heal \<sigma>)",
      OF assms True] True
  show ?thesis by (simp add: enter_Request_fields)
next
  case False
  then show ?thesis using assms by auto
qed

lemma chain_inv_Call_Close:
  assumes "chain_inv \<sigma>"
  shows "chain_inv (chain_step h \<sigma> (Call_Close nx c conn))"
proof (cases "inflight \<sigma> (metadata_key c) = None")
  case True
  from chain_inv_enter[where p = "Close_entered nx c conn" and s' = "enter_Close c (heal \<sigma>)",
      OF assms True] True
  show ?thesis by (simp add: enter_Close_fields)
next
  case False
  then show ?thesis using assms by auto
qed

lemma chain_inv_Advance:
  assumes inv: "chain_inv \<sigma>"
  shows "chain_inv (chain_step h \<sigma> (Advance k0))"
proof (cases "inflight \<sigma> k0")
  case None
  then show ?thesis using inv by simp
next
  case (Some p)
  note chain_step.simps [simp del]
  have key: "metadata_key (pending_ctx p) = k0" by (rule chain_invD(4)[OF inv Some])
  have exk: "expected \<sigma> k0 = pending_task p" by (simp add: expected_def Some)
  have ex_other: "expected (\<sigma>\<lparr>heal := s', inflight := f\<rparr>) k = expected \<sigma> k"
    if "f k = inflight \<sigma> k" "stored s' k = stored (heal \<sigma>) k" for s' f k
    using that by (auto simp: expected_def split: option.splits)
  show ?thesis
  proof (cases p)
    case (Request_entered nx c r)
    have e0: "expected \<sigma> k0 = None" by (simp add: exk Request_entered)
    have s0: "stored (heal \<sigma>) k0 = None" by (rule chain_invD(6)[OF inv Some])
    obtain conn err where fw: "next_Request nx c r = (conn, err)" by (cases "next_Request nx c r")
    show ?thesis
    proof (rule chain_invI)
      let ?\<sigma>' = "chain_step h \<sigma> (Advance k0)"
      have hs: "stored (heal ?\<sigma>') = stored (heal \<sigma>)" "tasks (heal ?\<sigma>') = tasks (heal \<sigma>)"
        "fresh (heal ?\<sigma>') = fresh (heal \<sigma>)"
        "inflight ?\<sigma>' = (inflight \<sigma>)(k0 := (if err \<noteq> None then None
                                        else Some (Request_forwarded nx c r conn)))"
        by (auto simp: chain_step.simps Some Request_entered fw Let_def)
      have ex: "expected ?\<sigma>' k = (if k = k0 then None else expected \<sigma> k)" for k
        using s0 by (auto simp: expected_def hs split: option.splits)
      show "expected ?\<sigma>' k = Some t" if "(k, t) \<in> set (tasks (heal ?\<sigma>'))" for k t
        using that chain_invD(1)[OF inv, of k t] e0 by (auto simp: hs(1-3) ex)
      show "t < fresh (heal ?\<sigma>')" if "expected ?\<sigma>' k = Some t" for k t
        using that chain_invD(2)[OF inv, of k t] by (simp add: hs(1-3) ex split: if_splits)
      show "t < fresh (heal ?\<sigma>')" if "stored (heal ?\<sigma>') k = Some t" for k t
        using that chain_invD(3)[OF inv, of k t] by (simp add: hs(1-3))
      show "metadata_key (pending_ctx q) = k" if "inflight ?\<sigma>' k = Some q" for k q
        using that chain_invD(4)[OF inv, of k q] key
        by (auto simp: hs Request_entered split: if_splits)
      show "distinct (tasks (heal ?\<sigma>'))" using chain_invD(5)[OF inv] by (simp add: hs(1-3))
      show "stored (heal ?\<sigma>') k = None" if "inflight ?\<sigma>' k = Some q" for k q
        using that chain_invD(6)[OF inv, of k] chain_invD(6)[OF inv Some] by (auto simp: hs split: if_splits)
    qed
  next
    case (Request_forwarded nx c r conn)
    have e0: "expected \<sigma> k0 = None" by (simp add: exk Request_forwarded)
    have kc: "metadata_key c = k0" using key by (simp add: Request_forwarded)
    have none: "(k0, t) \<notin> set (tasks (heal \<sigma>))" for t
      using chain_invD(1)[OF inv, of k0 t] e0 by auto
    have bound: "t < fresh (heal \<sigma>)" if "(k, t) \<in> set (tasks (heal \<sigma>))" for k t
      using chain_invD(2)[OF inv chain_invD(1)[OF inv that]] .
    show ?thesis
    proof (cases "clientconn_Load nx c")
      case None
      show ?thesis
      proof (rule chain_invI)
        let ?\<sigma>' = "chain_step h \<sigma> (Advance k0)"
        have hs: "stored (heal ?\<sigma>') = stored (heal \<sigma>)" "tasks (heal ?\<sigma>') = tasks (heal \<sigma>)"
          "fresh (heal ?\<sigma>') = fresh (heal \<sigma>)" "inflight ?\<sigma>' = (inflight \<sigma>)(k0 := None)"
          by (simp_all add: chain_step.simps Some Request_forwarded None)
        have ex: "expected ?\<sigma>' k = (if k = k0 then stored (heal \<sigma>) k0 else expected \<sigma> k)" for k
          by (auto simp: expected_def hs split: option.splits)
        show "expected ?\<sigma>' k = Some t" if "(k, t) \<in> set (tasks (heal ?\<sigma>'))" for k t
          using that chain_invD(1)[OF inv, of k t] none by (auto simp: hs(1-3) ex)
        show "t < fresh (heal ?\<sigma>')" if "expected ?\<sigma>' k = Some t" for k t
          using that chain_invD(2)[OF inv, of k t] chain_invD(3)[OF inv, of k0 t]
          by (auto simp: hs(1-3) ex split: if_splits)
        show "t < fresh (heal ?\<sigma>')" if "stored (heal ?\<sigma>') k = Some t" for k t
          using that chain_invD(3)[OF inv, of k t] by (simp add: hs(1-3))
        show "metadata_key (pending_ctx q) = k" if "inflight ?\<sigma>' k = Some q" for k q
          using that chain_invD(4)[OF inv, of k q] by (auto simp: hs split: if_splits)
        show "distinct (tasks (heal ?\<sigma>'))" using chain_invD(5)[OF inv] by (simp add: hs(1-3))
        show "stored (heal ?\<sigma>') k = None" if "inflight ?\<sigma>' k = Some q" for k q
          using that chain_invD(6)[OF inv, of k] chain_invD(6)[OF inv Some] by (auto simp: hs split: if_splits)
      qed
    next
      case Some2: (Some cc)
      let ?c' = "WithValuesFromContext (chainCtx h) c"
      show ?thesis
      proof (cases "monitor_open nx ?c' cc conn")
        case Some3: (Some e)
        show ?thesis
        proof (rule chain_invI)
          let ?\<sigma>' = "chain_step h \<sigma> (Advance k0)"
          have hs: "stored (heal ?\<sigma>') = stored (heal \<sigma>)" "tasks (heal ?\<sigma>') = tasks (heal \<sigma>)"
            "fresh (heal ?\<sigma>') = fresh (heal \<sigma>)"
            "inflight ?\<sigma>' = (inflight \<sigma>)(k0 \<mapsto> Request_looped nx c conn (Inl e))"
            by (simp_all add: chain_step.simps Some Request_forwarded Some2 Some3 newEventLoop_def Let_def)
          have ex: "expected ?\<sigma>' k = (if k = k0 then None else expected \<sigma> k)" for k
            by (auto simp: expected_def hs split: option.splits)
          show "expected ?\<sigma>' k = Some t" if "(k, t) \<in> set (tasks (heal ?\<sigma>'))" for k t
            using that chain_invD(1)[OF inv, of k t] e0 by (auto simp: hs(1-3) ex)
          show "t < fresh (heal ?\<sigma>')" if "expected ?\<sigma>' k = Some t" for k t
            using that chain_invD(2)[OF inv, of k t] by (simp add: hs(1-3) ex split: if_splits)
          show "t < fresh (heal ?\<sigma>')" if "stored (heal ?\<sigma>') k = Some t" for k t
            using that chain_invD(3)[OF inv, of k t] by (simp add: hs(1-3))
          show "metadata_key (pending_ctx q) = k" if "inflight ?\<sigma>' k = Some q" for k q
            using that chain_invD(4)[OF inv, of k q] kc by (auto simp: hs split: if_splits)
          show "distinct (tasks (heal ?\<sigma>'))" using chain_invD(5)[OF inv] by (simp add: hs(1-3))
          show "stored (heal ?\<sigma>') k = None" if "inflight ?\<sigma>' k = Some q" for k q
            using that chain_invD(6)[OF inv, of k] chain_invD(6)[OF inv Some] by (auto simp: hs split: if_splits)
        qed
      next
        case None
        show ?thesis
        proof (rule chain_invI)
          let ?\<sigma>' = "chain_step h \<sigma> (Advance k0)"
          let ?n = "fresh (heal \<sigma>)"
          have hs: "stored (heal ?\<sigma>') = stored (heal \<sigma>)"
            "tasks (heal ?\<sigma>') = tasks (heal \<sigma>) @ [(k0, ?n)]"
            "fresh (heal ?\<sigma>') = Suc ?n"
            "inflight ?\<sigma>' = (inflight \<sigma>)(k0 \<mapsto> Request_looped nx c conn (Inr ?n))"
            by (simp_all add: chain_step.simps Some Request_forwarded Some2 None newEventLoop_def Let_def kc)
          have ex: "expected ?\<sigma>' k = (if k = k0 then Some ?n else expected \<sigma> k)" for k
            by (auto simp: expected_def hs split: option.splits)
          show "expected ?\<sigma>' k = Some t" if "(k, t) \<in> set (tasks (heal ?\<sigma>'))" for k t
            using that chain_invD(1)[OF inv, of k t] none by (auto simp: hs(1-3) ex)
          show "t < fresh (heal ?\<sigma>')" if "expected ?\<sigma>' k = Some t" for k t
            using that chain_invD(2)[OF inv, of k t]
            by (auto simp: hs(1-3) ex less_Suc_eq split: if_splits)
          show "t < fresh (heal ?\<sigma>')" if "stored (heal ?\<sigma>') k = Some t" for k t
            using that chain_invD(3)[OF inv, of k t] by (simp add: hs(1-3) less_Suc_eq)
          show "metadata_key (pending_ctx q) = k" if "inflight ?\<sigma>' k = Some q" for k q
            using that chain_invD(4)[OF inv, of k q] kc by (auto simp: hs split: if_splits)
          show "distinct (tasks (heal ?\<sigma>'))"
            using chain_invD(5)[OF inv] bound by (auto simp: hs(1-3))
          show "stored (heal ?\<sigma>') k = None" if "inflight ?\<sigma>' k = Some q" for k q
            using that chain_invD(6)[OF inv, of k] chain_invD(6)[OF inv Some] by (auto simp: hs split: if_splits)
        qed
      qed
    qed
  next
    case (Request_looped nx c conn res)
    have kc: "metadata_key c = k0" using key by (simp add: Request_looped)
    show ?thesis
    proof (cases res)
      case (Inl e)
      have e0: "expected \<sigma> k0 = None" by (simp add: exk Request_looped Inl)
      show ?thesis
      proof (rule chain_invI)
        let ?\<sigma>' = "chain_step h \<sigma> (Advance k0)"
        have hs: "stored (heal ?\<sigma>') = stored (heal \<sigma>)" "tasks (heal ?\<sigma>') = tasks (heal \<sigma>)"
          "fresh (heal ?\<sigma>') = fresh (heal \<sigma>)" "inflight ?\<sigma>' = (inflight \<sigma>)(k0 := None)"
          by (simp_all add: chain_step.simps Some Request_looped Inl)
        have ex: "expected ?\<sigma>' k = (if k = k0 then stored (heal \<sigma>) k0 else expected \<sigma> k)" for k
          by (auto simp: expected_def hs split: option.splits)
        show "expected ?\<sigma>' k = Some t" if "(k, t) \<in> set (tasks (heal ?\<sigma>'))" for k t
          using that chain_invD(1)[OF inv, of k t] e0 by (auto simp: hs(1-3) ex)
        show "t < fresh (heal ?\<sigma>')" if "expected ?\<sigma>' k = Some t" for k t
          using that chain_invD(2)[OF inv, of k t] chain_invD(3)[OF inv, of k0 t]
          by (auto simp: hs(1-3) ex split: if_splits)
        show "t < fresh (heal ?\<sigma>')" if "stored (heal ?\<sigma>') k = Some t" for k t
          using that chain_invD(3)[OF inv, of k t] by (simp add: hs(1-3))
        show "metadata_key (pending_ctx q) = k" if "inflight ?\<sigma>' k = Some q" for k q
          using that chain_invD(4)[OF inv, of k q] by (auto simp: hs split: if_splits)
        show "distinct (tasks (heal ?\<sigma>'))" using chain_invD(5)[OF inv] by (simp add: hs(1-3))
        show "stored (heal ?\<sigma>') k = None" if "inflight ?\<sigma>' k = Some q" for k q
          using that chain_invD(6)[OF inv, of k] chain_invD(6)[OF inv Some] by (auto simp: hs split: if_splits)
      qed
    next
      case (Inr cancel)
      have e0: "expected \<sigma> k0 = Some cancel" by (simp add: exk Request_looped Inr)
      show ?thesis
      proof (rule chain_invI)
        let ?\<sigma>' = "chain_step h \<sigma> (Advance k0)"
        have hs: "stored (heal ?\<sigma>') = (stored (heal \<sigma>))(k0 \<mapsto> cancel)"
          "tasks (heal ?\<sigma>') = tasks (heal \<sigma>)"
          "fresh (heal ?\<sigma>') = fresh (heal \<sigma>)" "inflight ?\<sigma>' = (inflight \<sigma>)(k0 := None)"
          by (simp_all add: chain_step.simps Some Request_looped Inr store_def kc)
        have ex: "expected ?\<sigma>' k = expected \<sigma> k" for k
          using e0 by (auto simp: expected_def hs split: option.splits)
        show "expected ?\<sigma>' k = Some t" if "(k, t) \<in> set (tasks (heal ?\<sigma>'))" for k t
          using that chain_invD(1)[OF inv, of k t] by (simp add: hs(1-3) ex)
        show "t < fresh (heal ?\<sigma>')" if "expected ?\<sigma>' k = Some t" for k t
          using that chain_invD(2)[OF inv, of k t] by (simp add: hs(1-3) ex)
        show "t < fresh (heal ?\<sigma>')" if "stored (heal ?\<sigma>') k = Some t" for k t
          using that chain_invD(3)[OF inv, of k t] chain_invD(2)[OF inv e0]
          by (auto simp: hs(1-3) split: if_splits)
        show "metadata_key (pending_ctx q) = k" if "inflight ?\<sigma>' k = Some q" for k q
          using that chain_invD(4)[OF inv, of k q] by (auto simp: hs split: if_splits)
        show "distinct (tasks (heal ?\<sigma>'))" using chain_invD(5)[OF inv] by (simp add: hs(1-3))
        show "stored (heal ?\<sigma>') k = None" if "inflight ?\<sigma>' k = Some q" for k q
          using that chain_invD(6)[OF inv, of k] chain_invD(6)[OF inv Some] by (auto simp: hs split: if_splits)
      qed
    qed
  next
    case (Close_entered nx c conn)
    have e0: "expected \<sigma> k0 = None" by (simp add: exk Close_entered)
    show ?thesis
    proof (rule chain_invI)
      let ?\<sigma>' = "chain_step h \<sigma> (Advance k0)"
      have hs: "stored (heal ?\<sigma>') = stored (heal \<sigma>)" "tasks (heal ?\<sigma>') = tasks (heal \<sigma>)"
        "fresh (heal ?\<sigma>') = fresh (heal \<sigma>)" "inflight ?\<sigma>' = (inflight \<sigma>)(k0 := None)"
        by (simp_all add: chain_step.simps Some Close_entered)
      have ex: "expected ?\<sigma>' k = (if k = k0 then stored (heal \<sigma>) k0 else expected \<sigma> k)" for k
        by (auto simp: expected_def hs split: option.splits)
      show "expected ?\<sigma>' k = Some t" if "(k, t) \<in> set (tasks (heal ?\<sigma>'))" for k t
        using that chain_invD(1)[OF inv, of k t] e0 by (auto simp: hs(1-3) ex)
      show "t < fresh (heal ?\<sigma>')" if "expected ?\<sigma>' k = Some t" for k t
        using that chain_invD(2)[OF inv, of k t] chain_invD(3)[OF inv, of k0 t]
        by (auto simp: hs(1-3) ex split: if_splits)
      show "t < fresh (heal ?\<sigma>')" if "stored (heal ?\<sigma>') k = Some t" for k t
        using that chain_invD(3)[OF inv, of k t] by (simp add: hs(1-3))
      show "metadata_key (pending_ctx q) = k" if "inflight ?\<sigma>' k = Some q" for k q
        using that chain_invD(4)[OF inv, of k q] by (auto simp: hs split: if_splits)
      show "distinct (tasks (heal ?\<sigma>'))" using chain_invD(5)[OF inv] by (simp add: hs(1-3))
      show "stored (heal ?\<sigma>') k = None" if "inflight ?\<sigma>' k = Some q" for k q
        using that chain_invD(6)[OF inv, of k] chain_invD(6)[OF inv Some] by (auto simp: hs split: if_splits)
    qed
  qed
qed

lemma chain_inv_step: "chain_inv \<sigma> \<Longrightarrow> chain_inv (chain_step h \<sigma> a)"
  by (cases a) (simp_all only: chain_inv_Call_Request chain_inv_Call_Close chain_inv_Advance)

lemma chain_inv_foldl: "chain_inv \<sigma> \<Longrightarrow> chain_inv (foldl (chain_step h) \<sigma> acts)"
  by (induction acts arbitrary: \<sigma>) (simp_all add: chain_inv_step del: chain_step.simps)

lemma chain_inv_run: "chain_inv (run_chain h acts)"
  by (simp add: run_chain_def chain_inv_foldl chain_inv_init)

lemma chain_inv_tasks_of:
  assumes "chain_inv \<sigma>"
  shows "length (tasks_of k (heal \<sigma>)) \<le> 1"
proof -
  have d: "distinct (filter (\<lambda>(k', t). k' = k) (tasks (heal \<sigma>)))"
    using chain_invD(5)[OF assms] by simp
  show ?thesis
  proof (cases "expected \<sigma> k")
    case None
    then have "filter (\<lambda>(k', t). k' = k) (tasks (heal \<sigma>)) = []"
      using chain_invD(1)[OF assms, of k] by (auto simp: filter_empty_conv)
    then show ?thesis by (simp add: tasks_of_def)
  next
    case (Some t0)
    have "\<forall>x \<in> set (filter (\<lambda>(k', t). k' = k) (tasks (heal \<sigma>))). x = (k, t0)"
      using chain_invD(1)[OF assms, of k] Some by auto
    from distinct_same_le1[OF d this] show ?thesis by (simp add: tasks_of_def)
  qed
qed

text \<open>Calls made one at a time are runs of the steps.\<close>

lemma none_upd: "(\<lambda>k. None)(k0 := None) = (\<lambda>k. None)"
  by (rule ext) simp

lemma idle_call:
  "foldl (chain_step h) (idle_chain s) (call_steps call) = idle_chain (apply_call h s call)"
proof (cases call)
  case (Request nx c r)
  have "finish 3 h (Request_entered nx c r) (enter_Request c s)
     = (Inr (Request_returned (fst (healClient_Request h nx c r s))),
        snd (healClient_Request h nx c r s))" by (rule Request_in_steps)
  then show ?thesis
    by (auto simp: Request idle_chain_def numeral_3_eq_3 none_upd Let_def
        split: prod.splits sum.splits option.splits if_splits)
next
  case (Close nx c conn)
  have "finish 1 h (Close_entered nx c conn) (enter_Close c s)
     = (Inr (Close_returned (fst (healClient_Close h nx c conn s))),
        snd (healClient_Close h nx c conn s))" by (rule Close_in_steps)
  then show ?thesis
    by (auto simp: Close idle_chain_def none_upd Let_def
        split: prod.splits sum.splits option.splits if_splits)
qed

lemma calls_are_chain_runs:
  "run_chain h (concat (map call_steps calls)) = idle_chain (run_calls h calls)"
proof (induction calls rule: rev_induct)
  case Nil
  show ?case by (simp add: run_chain_def run_calls_def init_chain_def idle_chain_def)
next
  case (snoc call calls)
  have "run_chain h (concat (map call_steps (calls @ [call])))
      = foldl (chain_step h) (run_chain h (concat (map call_steps calls))) (call_steps call)"
    by (simp add: run_chain_def)
  also have "\<dots> = idle_chain (apply_call h (run_calls h calls) call)"
    by (simp only: snoc idle_call)
  finally show ?case by (simp add: run_calls_def)
qed

lemmas step_defs = enter_Request_def enter_Close_def run_chain_def init_chain_def run_free_def

lemma entered_no_task:
  assumes "inflight (run_chain h acts) (metadata_key c) = None"
  shows "tasks_of (metadata_key c) (enter_Request c (heal (run_chain h acts))) = []"
    and "tasks_of (metadata_key c) (enter_Close c (heal (run_chain h acts))) = []"
proof -
  let ?k = "metadata_key c"
  have r: "chain_inv (chain_step h (run_chain h acts) (Call_Request nx c r))" for nx r
    by (rule chain_inv_step[OF chain_inv_run])
  have "(k, t) \<in> set (tasks (enter_Request c (heal (run_chain h acts)))) \<Longrightarrow> k \<noteq> ?k" for k t
    using chain_invD(1)[OF r, of k t] assms
    by (auto simp: expected_def)
  then show "tasks_of ?k (enter_Request c (heal (run_chain h acts))) = []"
    by (auto simp: tasks_of_def filter_empty_conv)
  have "tasks (enter_Close c (heal (run_chain h acts))) = tasks (enter_Request c (heal (run_chain h acts)))"
    by (simp add: enter_Request_fields enter_Close_fields)
  with \<open>tasks_of ?k (enter_Request c (heal (run_chain h acts))) = []\<close>
  show "tasks_of ?k (enter_Close c (heal (run_chain h acts))) = []"
    by (simp add: tasks_of_def)
qed

text \<open>
  Claim C1, as stated, does not hold of the element alone: "at any time" includes the
  time while two Requests for one connection key overlap, and \<^verbatim>\<open>healClient\<close> takes no
  lock between \<^verbatim>\<open>loadAndDelete\<close> (line 61) and \<^verbatim>\<open>store\<close> (line 79). Two Requests for
  \<open>c1\<close> that both pass line 61 before either reaches line 79 find no handle to invoke;
  after both have started their event loop, tasks 0 and 1 both run for \<open>c1\<close>; after both
  have returned they still do, and only the handle of task 1 is stored, so no later call
  can cancel task 0.
\<close>

theorem overlapping_Requests_counterexample:
  "tasks_of ''c1'' (fheal (run_free example_client (take 6 overlapping_Requests))) = [0, 1]
   \<and> threads (run_free example_client (take 6 overlapping_Requests))
      = [Some (Request_looped chain_ok example_ctx (Some ''r1'') (Inr 0)),
         Some (Request_looped chain_ok example_ctx (Some ''r2'') (Inr 1))]
   \<and> tasks_of ''c1'' (fheal (run_free example_client overlapping_Requests)) = [0, 1]
   \<and> threads (run_free example_client overlapping_Requests) = [None, None]
   \<and> stored (fheal (run_free example_client overlapping_Requests)) ''c1'' = Some 1
   \<and> \<not> length (tasks_of ''c1'' (fheal (run_free example_client overlapping_Requests))) \<le> 1"
  by (simp add: overlapping_Requests_def step_defs heal_defs example_defs Let_def)

text \<open>
  Claim C1, amended. When the Request and Close calls for one connection key arrive one
  at a time (the steps of calls for other keys may run in between), every key has at most
  one running monitoring task in every state, also between two steps of a call: when a
  call for the key enters, no task of the key is left running, whether it is a Request or
  a Close. Calls made one at a time are such runs, and the steps of a call run without
  interruption are the call. A Request that finds a stored handle invokes it before it
  starts the new event loop and before it stores the new handle; a Close invokes it,
  stores no handle and leaves the key with no handle and no running task.
\<close>

theorem heal_at_most_one_monitoring_task_when_serialized:
  "length (tasks_of k (heal (run_chain h acts))) \<le> 1
   \<and> (inflight (run_chain h acts) (metadata_key c) = None \<longrightarrow>
        tasks_of (metadata_key c) (enter_Request c (heal (run_chain h acts))) = []
        \<and> tasks_of (metadata_key c) (enter_Close c (heal (run_chain h acts))) = [])
   \<and> run_chain h (concat (map call_steps calls)) = idle_chain (run_calls h calls)
   \<and> finish 3 h (Request_entered nx c r) (enter_Request c s)
      = (Inr (Request_returned (fst (healClient_Request h nx c r s))),
         snd (healClient_Request h nx c r s))
   \<and> finish 1 h (Close_entered nx c conn) (enter_Close c s)
      = (Inr (Close_returned (fst (healClient_Close h nx c conn s))),
         snd (healClient_Close h nx c conn s))
   \<and> (stored s (metadata_key c) = Some old \<longrightarrow>
        Cancelled old \<in> set (Request_calls h nx c r s)
        \<and> (\<forall>c' cc conn'. NewEventLoop c' cc conn' \<in> set (Request_calls h nx c r s) \<longrightarrow>
              before (Cancelled old) (NewEventLoop c' cc conn') (Request_calls h nx c r s))
        \<and> (\<forall>new. Stored (metadata_key c) new \<in> set (Request_calls h nx c r s) \<longrightarrow>
              before (Cancelled old) (Stored (metadata_key c) new) (Request_calls h nx c r s))
        \<and> Cancelled old \<in> set (Close_calls h nx c conn s))
   \<and> (\<forall>new. Stored (metadata_key c) new \<notin> set (Close_calls h nx c conn s))
   \<and> stored (snd (healClient_Close h nx c conn s)) (metadata_key c) = None
   \<and> (stored (run_calls h calls) (metadata_key c) = Some old \<longrightarrow>
        old \<notin> snd ` set (tasks (snd (healClient_Request h nx c r (run_calls h calls)))))
   \<and> tasks_of (metadata_key c) (snd (healClient_Close h nx c conn (run_calls h calls))) = []"
proof -
  have a: "length (tasks_of k (heal (run_chain h acts))) \<le> 1"
    by (rule chain_inv_tasks_of[OF chain_inv_run])
  note b = entered_no_task[of h acts c]
  note c0 = calls_are_chain_runs[of h calls]
  note d = Request_in_steps[of h nx c r s] Close_in_steps[of h nx c conn s]
  have e1: "Cancelled old \<in> set (Request_calls h nx c r s)"
    if "stored s (metadata_key c) = Some old"
    using that by (simp add: Request_calls_def Request_effects)
  have e2: "before (Cancelled old) (NewEventLoop c' cc conn') (Request_calls h nx c r s)"
    if "stored s (metadata_key c) = Some old"
      and "NewEventLoop c' cc conn' \<in> set (Request_calls h nx c r s)" for c' cc conn'
    using that by (auto simp: Request_calls_def Request_effects split: option.splits if_splits)
  have e3: "before (Cancelled old) (Stored (metadata_key c) new) (Request_calls h nx c r s)"
    if "stored s (metadata_key c) = Some old"
      and "Stored (metadata_key c) new \<in> set (Request_calls h nx c r s)" for new
    using that by (auto simp: Request_calls_def Request_effects split: option.splits if_splits)
  have e4: "Cancelled old \<in> set (Close_calls h nx c conn s)"
    if "stored s (metadata_key c) = Some old"
    using that by (simp add: Close_calls_def Close_effects)
  have f: "\<forall>new. Stored (metadata_key c) new \<notin> set (Close_calls h nx c conn s)"
    by (simp add: Close_calls_def Close_effects split: option.splits)
  have g: "stored (snd (healClient_Close h nx c conn s)) (metadata_key c) = None"
    by (rule Close_stored)
  have i: "old \<notin> snd ` set (tasks (snd (healClient_Request h nx c r (run_calls h calls))))"
    if "stored (run_calls h calls) (metadata_key c) = Some old"
    by (rule Request_cancels_old[OF heal_inv_run that])
  have j: "tasks_of (metadata_key c) (snd (healClient_Close h nx c conn (run_calls h calls))) = []"
    by (rule Close_tasks_of[OF heal_inv_run])
  from a b c0 d e1 e2 e3 e4 f g i j show ?thesis by blast
qed

text \<open>
  At a concrete input: Requests for \<open>c1\<close> and \<open>c2\<close> interleave; once the first Request
  for \<open>c1\<close> has returned (task 0 runs), a second one enters and cancels task 0, starts
  task 2 and only then stores its handle; \<open>c2\<close> keeps task 1 throughout.
\<close>

theorem heal_at_most_one_monitoring_task_when_serialized_witness:
  "tasks (heal (run_chain example_client (take 8 interleaved_keys))) = [(''c1'', 0), (''c2'', 1)]
   \<and> inflight (run_chain example_client (take 8 interleaved_keys)) ''c1'' = None
   \<and> tasks_of ''c1'' (enter_Request example_ctx (heal (run_chain example_client (take 8 interleaved_keys)))) = []
   \<and> tasks (heal (run_chain example_client (take 9 interleaved_keys))) = [(''c2'', 1)]
   \<and> tasks (heal (run_chain example_client (take 11 interleaved_keys))) = [(''c2'', 1), (''c1'', 2)]
   \<and> stored (heal (run_chain example_client (take 11 interleaved_keys))) ''c1'' = None
   \<and> tasks (heal (run_chain example_client interleaved_keys)) = [(''c2'', 1), (''c1'', 2)]
   \<and> stored (heal (run_chain example_client interleaved_keys)) ''c1'' = Some 2
   \<and> stored (run_calls example_client [Request chain_ok example_ctx ''r1'']) (metadata_key example_ctx) = Some 0
   \<and> Request_calls example_client chain_ok example_ctx ''r2''
        (run_calls example_client [Request chain_ok example_ctx ''r1''])
      = [PostponeSnapshot example_ctx, Cancelled 0, NextRequest example_ctx ''r2'',
         NewEventLoop (WithValuesFromContext (Ctx ''chain'' []) example_ctx) 7 (Some ''r2''),
         Stored ''c1'' 1]
   \<and> Close_calls example_client chain_ok example_ctx (Some ''r1'')
        (run_calls example_client [Request chain_ok example_ctx ''r1''])
      = [Cancelled 0, NextClose example_ctx (Some ''r1'')]
   \<and> tasks_of ''c1'' (snd (healClient_Request example_client chain_ok example_ctx ''r2''
        (run_calls example_client [Request chain_ok example_ctx ''r1'']))) = [1]"
  using heal_at_most_one_monitoring_task_when_serialized
    [of "''c1''" example_client "take 8 interleaved_keys" example_ctx
        "[Request chain_ok example_ctx ''r1'']" chain_ok "''r2''"
        "run_calls example_client [Request chain_ok example_ctx ''r1'']" "Some ''r1''" 0]
  by (simp add: interleaved_keys_def step_defs heal_defs example_defs idle_chain_def
      numeral_3_eq_3 Let_def)

subsection \<open>Failures of Request\<close>

lemma Request_tasks_subset_unless_stored:
  "snd (next_Request nx c r) \<noteq> None
   \<or> (\<exists>cc e. clientconn_Load nx c = Some cc
        \<and> monitor_open nx (WithValuesFromContext (chainCtx h) c) cc (fst (next_Request nx c r)) = Some e)
   \<Longrightarrow> set (tasks (snd (healClient_Request h nx c r s))) \<subseteq> set (tasks s)
       \<and> fresh (snd (healClient_Request h nx c r s)) = fresh s
       \<and> stored (snd (healClient_Request h nx c r s)) (metadata_key c) = None"
  by (auto simp: heal_defs Let_def split: prod.splits option.splits sum.splits)

text \<open>
  Claim C2. When the forward succeeds, a client-connection handle is in the context and
  starting the monitoring task fails with \<open>e\<close>, Request returns a nil connection and the
  error \<open>e\<close> wrapped with "unable to monitor"; after the forward it issues Close on the
  connection just established, as its last call; it stores no handle, leaves none stored
  for the key, and starts no task.
\<close>

theorem Request_monitor_setup_failure:
  assumes "next_Request nx c r = (conn, None)"
    and "clientconn_Load nx c = Some cc"
    and "monitor_open nx (WithValuesFromContext (chainCtx h) c) cc conn = Some e"
  shows "fst (healClient_Request h nx c r s) = (None, Some (Wrap e ''unable to monitor''))
    \<and> before (NextRequest c r) (NextClose (Postponed c) conn) (Request_calls h nx c r s)
    \<and> last (Request_calls h nx c r s) = NextClose (Postponed c) conn
    \<and> (\<forall>k t. Stored k t \<notin> set (Request_calls h nx c r s))
    \<and> stored (snd (healClient_Request h nx c r s)) (metadata_key c) = None
    \<and> set (tasks (snd (healClient_Request h nx c r s))) \<subseteq> set (tasks s)"
proof -
  have res: "fst (healClient_Request h nx c r s) = (None, Some (Wrap e ''unable to monitor''))"
    using assms by (simp add: heal_defs Let_def split: prod.splits option.splits)
  have eff: "Request_calls h nx c r s =
      [PostponeSnapshot c]
      @ (case stored s (metadata_key c) of None \<Rightarrow> [] | Some old \<Rightarrow> [Cancelled old])
      @ [NextRequest c r, NewEventLoop (WithValuesFromContext (chainCtx h) c) cc conn,
         NextClose (Postponed c) conn]"
    using assms by (simp add: Request_calls_def Request_effects)
  have ord: "before (NextRequest c r) (NextClose (Postponed c) conn) (Request_calls h nx c r s)"
    by (simp add: eff split: option.splits)
  have lst: "last (Request_calls h nx c r s) = NextClose (Postponed c) conn"
    by (simp add: eff)
  have nost: "\<forall>k t. Stored k t \<notin> set (Request_calls h nx c r s)"
    by (simp add: eff split: option.splits)
  have rest: "set (tasks (snd (healClient_Request h nx c r s))) \<subseteq> set (tasks s)
      \<and> stored (snd (healClient_Request h nx c r s)) (metadata_key c) = None"
    using Request_tasks_subset_unless_stored[of nx c r h s] assms by simp
  from res ord lst nost rest show ?thesis by blast
qed

text \<open>
  At a concrete input: the second Request for \<open>c1\<close> goes to a chain whose monitor stream
  cannot be opened.
\<close>

theorem Request_monitor_setup_failure_witness:
  "next_Request chain_monitor_fails example_ctx ''r2'' = (Some ''r2'', None)
   \<and> clientconn_Load chain_monitor_fails example_ctx = Some 7
   \<and> fst (healClient_Request example_client chain_monitor_fails example_ctx ''r2''
        (run_calls example_client [Request chain_ok example_ctx ''r1'']))
      = (None, Some (Wrap (Error ''no stream'') ''unable to monitor''))
   \<and> Request_calls example_client chain_monitor_fails example_ctx ''r2''
        (run_calls example_client [Request chain_ok example_ctx ''r1''])
      = [PostponeSnapshot example_ctx, Cancelled 0, NextRequest example_ctx ''r2'',
         NewEventLoop (WithValuesFromContext (Ctx ''chain'' []) example_ctx) 7 (Some ''r2''),
         NextClose (Postponed example_ctx) (Some ''r2'')]
   \<and> stored (snd (healClient_Request example_client chain_monitor_fails example_ctx ''r2''
        (run_calls example_client [Request chain_ok example_ctx ''r1''])))
        (metadata_key example_ctx) = None
   \<and> tasks (snd (healClient_Request example_client chain_monitor_fails example_ctx ''r2''
        (run_calls example_client [Request chain_ok example_ctx ''r1'']))) = []"
  using Request_monitor_setup_failure
    [of chain_monitor_fails example_ctx "''r2''" "Some ''r2''" 7 example_client
        "Error ''no stream''" "run_calls example_client [Request chain_ok example_ctx ''r1'']"]
  by (simp add: heal_defs example_defs Let_def)

text \<open>
  Claim C3. When the forward fails with \<open>e\<close>, Request returns a nil connection and
  \<open>e\<close> itself; the forward is its last call, no event loop is started, no handle is
  stored, no task is added and no task number is used.
\<close>

theorem Request_forward_failure:
  assumes "next_Request nx c r = (conn, Some e)"
  shows "fst (healClient_Request h nx c r s) = (None, Some e)
    \<and> (\<forall>c' cc conn'. NewEventLoop c' cc conn' \<notin> set (Request_calls h nx c r s))
    \<and> (\<forall>k t. Stored k t \<notin> set (Request_calls h nx c r s))
    \<and> last (Request_calls h nx c r s) = NextRequest c r
    \<and> set (tasks (snd (healClient_Request h nx c r s))) \<subseteq> set (tasks s)
    \<and> fresh (snd (healClient_Request h nx c r s)) = fresh s"
proof -
  have res: "fst (healClient_Request h nx c r s) = (None, Some e)"
    using assms by (simp add: heal_defs Let_def split: prod.splits option.splits)
  have eff: "Request_calls h nx c r s =
      [PostponeSnapshot c]
      @ (case stored s (metadata_key c) of None \<Rightarrow> [] | Some old \<Rightarrow> [Cancelled old])
      @ [NextRequest c r]"
    using assms by (simp add: Request_calls_def Request_effects)
  have no_loop: "\<forall>c' cc conn'. NewEventLoop c' cc conn' \<notin> set (Request_calls h nx c r s)"
    by (simp add: eff split: option.splits)
  have no_store: "\<forall>k t. Stored k t \<notin> set (Request_calls h nx c r s)"
    by (simp add: eff split: option.splits)
  have lst: "last (Request_calls h nx c r s) = NextRequest c r"
    by (simp add: eff)
  have rest: "set (tasks (snd (healClient_Request h nx c r s))) \<subseteq> set (tasks s)
      \<and> fresh (snd (healClient_Request h nx c r s)) = fresh s"
    using Request_tasks_subset_unless_stored[of nx c r h s] assms by simp
  from res no_loop no_store lst rest show ?thesis by blast
qed

text \<open>At a concrete input: the first Request for \<open>c1\<close> goes to a chain whose Request fails.\<close>

theorem Request_forward_failure_witness:
  "next_Request chain_forward_fails example_ctx ''r1'' = (None, Some (Error ''no endpoint''))
   \<and> fst (healClient_Request example_client chain_forward_fails example_ctx ''r1'' init_heal)
      = (None, Some (Error ''no endpoint''))
   \<and> Request_calls example_client chain_forward_fails example_ctx ''r1'' init_heal
      = [PostponeSnapshot example_ctx, NextRequest example_ctx ''r1'']
   \<and> tasks (snd (healClient_Request example_client chain_forward_fails example_ctx ''r1'' init_heal)) = []
   \<and> fresh (snd (healClient_Request example_client chain_forward_fails example_ctx ''r1'' init_heal)) = 0"
  using Request_forward_failure
    [of chain_forward_fails example_ctx "''r1''" None "Error ''no endpoint''" example_client init_heal]
  by (simp add: heal_defs example_defs Let_def)

text \<open>
  Claim C10. When a handle \<open>old\<close> is stored for the key and the forward fails, the handle
  was invoked before the forward, the failed Request stores no handle, and afterwards the
  key has no stored handle and no running monitoring task, while the caller gets the
  error.
\<close>

theorem Request_not_atomic_on_failure:
  assumes "next_Request nx c r = (conn, Some e)"
    and "stored (run_calls h calls) (metadata_key c) = Some old"
  shows "before (Cancelled old) (NextRequest c r) (Request_calls h nx c r (run_calls h calls))
    \<and> (\<forall>k t. Stored k t \<notin> set (Request_calls h nx c r (run_calls h calls)))
    \<and> stored (snd (healClient_Request h nx c r (run_calls h calls))) (metadata_key c) = None
    \<and> tasks_of (metadata_key c) (snd (healClient_Request h nx c r (run_calls h calls))) = []
    \<and> fst (healClient_Request h nx c r (run_calls h calls)) = (None, Some e)"
proof -
  let ?s = "run_calls h calls"
  let ?s' = "snd (healClient_Request h nx c r ?s)"
  have eff: "Request_calls h nx c r ?s = [PostponeSnapshot c, Cancelled old, NextRequest c r]"
    using assms by (simp add: Request_calls_def Request_effects)
  have ord: "before (Cancelled old) (NextRequest c r) (Request_calls h nx c r ?s)"
    by (simp add: eff)
  have no_store: "\<forall>k t. Stored k t \<notin> set (Request_calls h nx c r ?s)"
    by (simp add: eff)
  have st: "stored ?s' (metadata_key c) = None"
    using Request_tasks_subset_unless_stored[of nx c r h ?s] assms by simp
  have "heal_inv ?s'" by (rule heal_inv_Request[OF heal_inv_run])
  from heal_inv_tasks_of(2)[OF this, of _ "metadata_key c"] st
  have "set (tasks_of (metadata_key c) ?s') = {}" by fastforce
  then have none: "tasks_of (metadata_key c) ?s' = []" by simp
  have res: "fst (healClient_Request h nx c r ?s) = (None, Some e)"
    using assms by (simp add: heal_defs Let_def split: prod.splits option.splits)
  from ord no_store st none res show ?thesis by blast
qed

text \<open>
  At a concrete input: task 0 monitors \<open>c1\<close>; a Request that fails downstream leaves
  \<open>c1\<close> with no handle and no task.
\<close>

theorem Request_not_atomic_on_failure_witness:
  "next_Request chain_forward_fails example_ctx ''r2'' = (None, Some (Error ''no endpoint''))
   \<and> stored (run_calls example_client [Request chain_ok example_ctx ''r1'']) (metadata_key example_ctx) = Some 0
   \<and> tasks_of ''c1'' (run_calls example_client [Request chain_ok example_ctx ''r1'']) = [0]
   \<and> Request_calls example_client chain_forward_fails example_ctx ''r2''
        (run_calls example_client [Request chain_ok example_ctx ''r1''])
      = [PostponeSnapshot example_ctx, Cancelled 0, NextRequest example_ctx ''r2'']
   \<and> stored (run_calls example_client
        [Request chain_ok example_ctx ''r1'', Request chain_forward_fails example_ctx ''r2''])
        ''c1'' = None
   \<and> tasks_of ''c1'' (run_calls example_client
        [Request chain_ok example_ctx ''r1'', Request chain_forward_fails example_ctx ''r2'']) = []"
  using Request_not_atomic_on_failure
    [of chain_forward_fails example_ctx "''r2''" None "Error ''no endpoint''" example_client
        "[Request chain_ok example_ctx ''r1'']" 0]
  by (simp add: heal_defs example_defs Let_def)

subsection \<open>Close\<close>

lemma Close_cancels_old:
  "stored s (metadata_key c) = Some old \<Longrightarrow>
     old \<notin> snd ` set (tasks (snd (healClient_Close h nx c conn s)))"
  by (auto simp: heal_defs Let_def split: prod.splits option.splits)

lemma Close_noop_tasks:
  "stored s (metadata_key c) = None \<Longrightarrow> tasks (snd (healClient_Close h nx c conn s)) = tasks s"
  by (simp add: heal_defs Let_def split: prod.splits option.splits)

lemma Close_result: "fst (healClient_Close h nx c conn s) = next_Close nx c conn"
  by (simp add: heal_defs Let_def split: prod.splits option.splits)

text \<open>
  Claim C7. Close first invokes the stored handle of the key, when there is one (the task
  it names no longer runs; with none stored the tasks are untouched), then forwards Close
  and returns the next element's result as it is. A second Close for the same connection
  makes the forward as its only call: no handle is invoked again, no task changes, and its
  result is again the next element's, so no error when the next element reports none.
\<close>

theorem Close_cancels_then_forwards:
  "Close_calls h nx c conn s =
     (case stored s (metadata_key c) of None \<Rightarrow> [] | Some old \<Rightarrow> [Cancelled old])
     @ [NextClose c conn]
   \<and> (stored s (metadata_key c) = Some old \<longrightarrow>
        old \<notin> snd ` set (tasks (snd (healClient_Close h nx c conn s))))
   \<and> (stored s (metadata_key c) = None \<longrightarrow>
        tasks (snd (healClient_Close h nx c conn s)) = tasks s)
   \<and> fst (healClient_Close h nx c conn s) = next_Close nx c conn
   \<and> Close_calls h nx' c conn (snd (healClient_Close h nx c conn s)) = [NextClose c conn]
   \<and> tasks (snd (healClient_Close h nx' c conn (snd (healClient_Close h nx c conn s))))
      = tasks (snd (healClient_Close h nx c conn s))
   \<and> fst (healClient_Close h nx' c conn (snd (healClient_Close h nx c conn s)))
      = next_Close nx' c conn
   \<and> (snd (next_Close nx' c conn) = None \<longrightarrow>
        snd (fst (healClient_Close h nx' c conn (snd (healClient_Close h nx c conn s)))) = None)"
proof -
  let ?s1 = "snd (healClient_Close h nx c conn s)"
  have a: "Close_calls h nx c conn s =
     (case stored s (metadata_key c) of None \<Rightarrow> [] | Some old \<Rightarrow> [Cancelled old])
     @ [NextClose c conn]"
    by (simp add: Close_calls_def Close_effects)
  have st: "stored ?s1 (metadata_key c) = None" by (rule Close_stored)
  have b: "Close_calls h nx' c conn ?s1 = [NextClose c conn]"
    by (simp add: Close_calls_def Close_effects st)
  have t: "tasks (snd (healClient_Close h nx' c conn ?s1)) = tasks ?s1"
    by (rule Close_noop_tasks[OF st])
  show ?thesis
    using a b t Close_cancels_old[of s c old h nx conn] Close_noop_tasks[of s c h nx conn]
    by (simp add: Close_result)
qed

text \<open>
  At a concrete input: Request, Close, Close for \<open>c1\<close>. The second Close only forwards;
  it returns no error on a chain that reports none and the chain's error otherwise.
\<close>

theorem Close_cancels_then_forwards_witness:
  "stored (run_calls example_client [Request chain_ok example_ctx ''r1'']) (metadata_key example_ctx) = Some 0
   \<and> tasks (run_calls example_client [Request chain_ok example_ctx ''r1'']) = [(''c1'', 0)]
   \<and> Close_calls example_client chain_ok example_ctx (Some ''r1'')
        (run_calls example_client [Request chain_ok example_ctx ''r1''])
      = [Cancelled 0, NextClose example_ctx (Some ''r1'')]
   \<and> tasks (run_calls example_client
        [Request chain_ok example_ctx ''r1'', Close chain_ok example_ctx (Some ''r1'')]) = []
   \<and> snd (next_Close chain_ok example_ctx (Some ''r1'')) = None
   \<and> Close_calls example_client chain_ok example_ctx (Some ''r1'')
        (run_calls example_client
          [Request chain_ok example_ctx ''r1'', Close chain_ok example_ctx (Some ''r1'')])
      = [NextClose example_ctx (Some ''r1'')]
   \<and> fst (healClient_Close example_client chain_ok example_ctx (Some ''r1'')
        (run_calls example_client
          [Request chain_ok example_ctx ''r1'', Close chain_ok example_ctx (Some ''r1'')]))
      = (Some (), None)
   \<and> fst (healClient_Close example_client chain_close_fails example_ctx (Some ''r1'')
        (run_calls example_client
          [Request chain_ok example_ctx ''r1'', Close chain_ok example_ctx (Some ''r1'')]))
      = (None, Some (Error ''gone''))
   \<and> stored (run_calls example_client
        [Request chain_ok example_ctx ''r1'', Request chain_ok (Ctx ''c2'' []) ''r2'',
         Close chain_ok example_ctx (Some ''r1'')]) (metadata_key example_ctx) = None
   \<and> tasks (run_calls example_client
        [Request chain_ok example_ctx ''r1'', Request chain_ok (Ctx ''c2'' []) ''r2'',
         Close chain_ok example_ctx (Some ''r1''), Close chain_ok example_ctx (Some ''r1'')])
      = [(''c2'', 1)]"
  using Close_cancels_then_forwards
    [of example_client chain_ok example_ctx "Some ''r1''"
        "run_calls example_client [Request chain_ok example_ctx ''r1'']" 0 chain_ok]
    Close_cancels_then_forwards
    [of example_client chain_ok example_ctx "Some ''r1''"
        "run_calls example_client
          [Request chain_ok example_ctx ''r1'', Request chain_ok (Ctx ''c2'' []) ''r2'',
           Close chain_ok example_ctx (Some ''r1'')]" 0 chain_ok]
  by (simp add: heal_defs example_defs Let_def)

subsection \<open>The order of the steps of Request\<close>

text \<open>
  Claim C8 as stated fails. With task 0 stored for \<open>c1\<close>, the calls of a Request are not
  in the order cancel, snapshot, forward: the snapshot taken by
  \<^verbatim>\<open>postpone.ContextWithValues\<close> (line 59) comes before the cancel (lines 61-63), and the
  values are attached to the chain context (line 72) only after the forward (line 65).
\<close>

theorem Request_order_counterexample:
  "\<not> spec_Request_order (Cancelled 0) (PostponeSnapshot example_ctx) (NextRequest example_ctx ''r2'')
       (Request_calls example_client chain_ok example_ctx ''r2''
          (run_calls example_client [Request chain_ok example_ctx ''r1'']))
   \<and> \<not> spec_Request_order (Cancelled 0)
       (NewEventLoop (WithValuesFromContext (chainCtx example_client) example_ctx) 7 (Some ''r2''))
       (NextRequest example_ctx ''r2'')
       (Request_calls example_client chain_ok example_ctx ''r2''
          (run_calls example_client [Request chain_ok example_ctx ''r1'']))"
  by (simp add: spec_Request_order_def heal_defs example_defs Let_def)

text \<open>
  Claim C8, amended. Request first captures the postponed-context snapshot of the call
  context, then invokes the stored handle of the key (when there is one), then forwards
  the request; the chain context extended with the values of the call context is built
  only after the forward, for the new event loop.
\<close>

theorem Request_order:
  "hd (Request_calls h nx c r s) = PostponeSnapshot c
   \<and> before (PostponeSnapshot c) (NextRequest c r) (Request_calls h nx c r s)
   \<and> (stored s (metadata_key c) = Some old \<longrightarrow>
        before (PostponeSnapshot c) (Cancelled old) (Request_calls h nx c r s)
        \<and> before (Cancelled old) (NextRequest c r) (Request_calls h nx c r s)
        \<and> \<not> before (Cancelled old) (PostponeSnapshot c) (Request_calls h nx c r s))
   \<and> (\<forall>c' cc conn. NewEventLoop c' cc conn \<in> set (Request_calls h nx c r s) \<longrightarrow>
        c' = WithValuesFromContext (chainCtx h) c
        \<and> before (NextRequest c r) (NewEventLoop c' cc conn) (Request_calls h nx c r s))"
proof -
  have a: "hd (Request_calls h nx c r s) = PostponeSnapshot c"
    by (simp add: Request_calls_def Request_effects)
  have b: "before (PostponeSnapshot c) (NextRequest c r) (Request_calls h nx c r s)"
    by (simp add: Request_calls_def Request_effects)
  have c1: "before (PostponeSnapshot c) (Cancelled old) (Request_calls h nx c r s)
        \<and> before (Cancelled old) (NextRequest c r) (Request_calls h nx c r s)
        \<and> \<not> before (Cancelled old) (PostponeSnapshot c) (Request_calls h nx c r s)"
    if "stored s (metadata_key c) = Some old"
    using that by (auto simp: Request_calls_def Request_effects split: option.splits)
  have d: "c' = WithValuesFromContext (chainCtx h) c
        \<and> before (NextRequest c r) (NewEventLoop c' cc conn) (Request_calls h nx c r s)"
    if "NewEventLoop c' cc conn \<in> set (Request_calls h nx c r s)" for c' cc conn
    using that
    by (auto simp: Request_calls_def Request_effects split: option.splits if_splits)
  from a b c1 d show ?thesis by blast
qed

text \<open>At a concrete input: the calls of a second successful Request for \<open>c1\<close>.\<close>

theorem Request_order_witness:
  "stored (run_calls example_client [Request chain_ok example_ctx ''r1'']) (metadata_key example_ctx) = Some 0
   \<and> Request_calls example_client chain_ok example_ctx ''r2''
        (run_calls example_client [Request chain_ok example_ctx ''r1''])
      = [PostponeSnapshot example_ctx, Cancelled 0, NextRequest example_ctx ''r2'',
         NewEventLoop (WithValuesFromContext (Ctx ''chain'' []) example_ctx) 7 (Some ''r2''),
         Stored ''c1'' 1]
   \<and> before (PostponeSnapshot example_ctx) (Cancelled 0)
        (Request_calls example_client chain_ok example_ctx ''r2''
          (run_calls example_client [Request chain_ok example_ctx ''r1'']))
   \<and> before (Cancelled 0) (NextRequest example_ctx ''r2'')
        (Request_calls example_client chain_ok example_ctx ''r2''
          (run_calls example_client [Request chain_ok example_ctx ''r1'']))"
  using Request_order
    [of example_client chain_ok example_ctx "''r2''"
        "run_calls example_client [Request chain_ok example_ctx ''r1'']" 0]
  by (simp add: heal_defs example_defs Let_def)
section \<open>Properties of the broadcaster\<close>

subsection \<open>The cases of an executor step\<close>

lemma executor_step_cases [case_names idle send_closed send_ok blocked register remove_closed remove_ok deliver]:
  obtains
    "sending m = []" "updateExecutor m = []" "executor_step m = m"
  | ch e rest where "sending m = (ch, e) # rest" "closed (chans m ! ch)"
      "executor_step m = m\<lparr>panicked := True\<rparr>"
  | ch e rest where "sending m = (ch, e) # rest" "\<not> closed (chans m ! ch)"
      "length (buf (chans m ! ch)) < cap (chans m ! ch)"
      "executor_step m =
         m\<lparr>chans := (chans m)[ch := (chans m ! ch)\<lparr>buf := buf (chans m ! ch) @ [e]\<rparr>],
           sending := rest, trace := trace m @ [Pushed ch e]\<rparr>"
  | ch e rest where "sending m = (ch, e) # rest" "\<not> closed (chans m ! ch)"
      "\<not> length (buf (chans m ! ch)) < cap (chans m ! ch)" "executor_step m = m"
  | ch c q where "sending m = []" "updateExecutor m = Register ch c # q"
      "executor_step m =
         m\<lparr>updateExecutor := q, fanoutEventChs := fanoutEventChs m @ [ch],
           waiting := waiting m @ [(c, ch)], trace := trace m @ [Registered ch]\<rparr>"
  | ch q where "sending m = []" "updateExecutor m = Remove ch # q" "closed (chans m ! ch)"
      "executor_step m =
         m\<lparr>updateExecutor := q,
           fanoutEventChs := filter (\<lambda>ch'. ch' \<noteq> ch) (fanoutEventChs m),
           trace := trace m @ [Removed ch], panicked := True\<rparr>"
  | ch q where "sending m = []" "updateExecutor m = Remove ch # q" "\<not> closed (chans m ! ch)"
      "executor_step m =
         m\<lparr>updateExecutor := q,
           fanoutEventChs := filter (\<lambda>ch'. ch' \<noteq> ch) (fanoutEventChs m),
           chans := (chans m)[ch := (chans m ! ch)\<lparr>closed := True\<rparr>],
           trace := trace m @ [Removed ch, Closed ch]\<rparr>"
  | e q where "sending m = []" "updateExecutor m = Deliver e # q"
      "executor_step m =
         m\<lparr>updateExecutor := q, sending := map (\<lambda>ch. (ch, e)) (fanoutEventChs m),
           trace := trace m @ [Begin e]\<rparr>"
proof (cases "sending m")
  case Nil
  show ?thesis
  proof (cases "updateExecutor m")
    case Nil2: Nil
    with Nil that(1) show ?thesis by (simp add: executor_step_def)
  next
    case (Cons t q)
    show ?thesis
    proof (cases t)
      case (Register ch c)
      with Nil Cons that(5) show ?thesis by (simp add: executor_step_def)
    next
      case (Remove ch)
      show ?thesis
      proof (cases "closed (chans m ! ch)")
        case True
        with Nil Cons Remove that(6)[of ch q] show ?thesis
          by (simp add: executor_step_def Let_def)
      next
        case False
        with Nil Cons Remove that(7)[of ch q] show ?thesis
          by (simp add: executor_step_def Let_def)
      qed
    next
      case (Deliver e)
      with Nil Cons that(8) show ?thesis by (simp add: executor_step_def)
    qed
  qed
next
  case (Cons p rest)
  obtain ch e where p: "p = (ch, e)" by (cases p)
  show ?thesis
  proof (cases "closed (chans m ! ch)")
    case True
    with Cons p that(2) show ?thesis by (simp add: executor_step_def)
  next
    case False
    show ?thesis
    proof (cases "length (buf (chans m ! ch)) < cap (chans m ! ch)")
      case True
      with Cons p False that(3)[of ch e rest] show ?thesis by (simp add: executor_step_def)
    next
      case F2: False
      with Cons p False that(4)[of ch e rest] show ?thesis by (simp add: executor_step_def)
    qed
  qed
qed

subsection \<open>The invariant of the state\<close>

lemmas token_defs = reg_tokens_def rem_tokens_def wait_tokens_def closed_token_def

lemma bcast_inv_init: "bcast_inv (NewMonitorConnectionClient pending)"
  by (simp add: bcast_inv_def NewMonitorConnectionClient_def token_defs)

lemma bcast_inv_in_range:
  assumes "bcast_inv m" "ch \<in> set (fanoutEventChs m)"
  shows "ch < length (chans m)" and "\<not> closed (chans m ! ch)"
proof -
  from assms have pos: "0 < wait_tokens ch (waiting m) + rem_tokens ch (updateExecutor m)"
    by (simp add: bcast_inv_def)
  from assms(1) have tot: "reg_tokens ch (updateExecutor m) + wait_tokens ch (waiting m)
                + rem_tokens ch (updateExecutor m) + closed_token ch (chans m)
              = (if ch < length (chans m) then 1 else 0)"
    by (simp add: bcast_inv_def)
  from pos tot show "ch < length (chans m)" by (cases "ch < length (chans m)") auto
  from pos tot show "\<not> closed (chans m ! ch)"
    by (auto simp: closed_token_def split: if_splits)
qed

lemma bcast_inv_Subscribe:
  assumes "bcast_inv m"
  shows "bcast_inv (snd (MonitorConnections c sel m))"
proof -
  let ?n = "length (chans m)"
  have tot: "reg_tokens ch (updateExecutor m) + wait_tokens ch (waiting m)
                + rem_tokens ch (updateExecutor m) + closed_token ch (chans m)
              = (if ch < ?n then 1 else 0)" for ch
    using assms by (simp add: bcast_inv_def)
  have ct: "closed_token ch (chans m @ [\<lparr>buf = [], cap = 100, closed = False\<rparr>]) = closed_token ch (chans m)" for ch
    by (auto simp: closed_token_def nth_append)
  have tot': "reg_tokens ch (updateExecutor m @ [Register ?n c]) + wait_tokens ch (waiting m)
                + rem_tokens ch (updateExecutor m @ [Register ?n c])
                + closed_token ch (chans m @ [\<lparr>buf = [], cap = 100, closed = False\<rparr>])
              = (if ch < Suc ?n then 1 else 0)" for ch
    using tot[of ch] by (auto simp: ct reg_tokens_def rem_tokens_def)
  have rem: "rem_tokens ch (updateExecutor m @ [Register ?n c]) = rem_tokens ch (updateExecutor m)" for ch
    by (simp add: rem_tokens_def)
  have caps: "\<forall>ch < Suc ?n. cap ((chans m @ [\<lparr>buf = [], cap = 100, closed = False\<rparr>]) ! ch) = 100
       \<and> length (buf ((chans m @ [\<lparr>buf = [], cap = 100, closed = False\<rparr>]) ! ch)) \<le> 100"
    using assms by (auto simp: bcast_inv_def nth_append less_Suc_eq)
  show ?thesis
    using assms tot' caps
    by (simp add: bcast_inv_def MonitorConnections_def AsyncExec_def Let_def rem)
qed

lemma bcast_inv_LoopRead:
  assumes "bcast_inv m"
  shows "bcast_inv (eventLoop_read m)"
  using assms
  by (cases "eventCh m") (simp_all add: eventLoop_read_def AsyncExec_def bcast_inv_def token_defs)

lemma length_filter_remove1:
  "w \<in> set xs \<Longrightarrow> length (filter P (remove1 w xs)) + (if P w then 1 else 0) = length (filter P xs)"
  by (induction xs) auto

lemma bcast_inv_CtxDone:
  assumes "bcast_inv m"
  shows "bcast_inv (ctx_Done ch m)"
proof (cases "filter (\<lambda>(c, ch'). ch' = ch \<and> c \<in> set (cancelled m)) (waiting m)")
  case Nil
  then show ?thesis using assms by (simp add: ctx_Done_def)
next
  case (Cons w ws)
  then have "w \<in> set (filter (\<lambda>(c, ch'). ch' = ch \<and> c \<in> set (cancelled m)) (waiting m))"
    by simp
  then have w: "w \<in> set (waiting m)" "snd w = ch" by auto
  have st: "ctx_Done ch m =
      m\<lparr>waiting := remove1 w (waiting m), updateExecutor := updateExecutor m @ [Remove ch]\<rparr>"
    using Cons by (simp add: ctx_Done_def AsyncExec_def)
  have wt: "wait_tokens ch' (remove1 w (waiting m)) + (if ch' = ch then 1 else 0)
      = wait_tokens ch' (waiting m)" for ch'
  proof -
    have "(case w of (c, x) \<Rightarrow> x = ch') = (ch' = ch)"
      using w(2) by (cases w) auto
    with length_filter_remove1[OF w(1), of "\<lambda>(c, x). x = ch'"]
    show ?thesis by (simp add: wait_tokens_def)
  qed
  have rt: "rem_tokens ch' (updateExecutor m @ [Remove ch])
      = rem_tokens ch' (updateExecutor m) + (if ch' = ch then 1 else 0)" for ch'
    by (auto simp: rem_tokens_def)
  have gt: "reg_tokens ch' (updateExecutor m @ [Remove ch]) = reg_tokens ch' (updateExecutor m)" for ch'
    by (simp add: reg_tokens_def)
  have keep: "wait_tokens ch' (remove1 w (waiting m)) + rem_tokens ch' (updateExecutor m @ [Remove ch])
      = wait_tokens ch' (waiting m) + rem_tokens ch' (updateExecutor m)" for ch'
    using wt[of ch'] by (simp add: rt)
  have keep2: "reg_tokens ch' (updateExecutor m @ [Remove ch]) + wait_tokens ch' (remove1 w (waiting m))
      + rem_tokens ch' (updateExecutor m @ [Remove ch]) + closed_token ch' (chans m)
      = reg_tokens ch' (updateExecutor m) + wait_tokens ch' (waiting m)
      + rem_tokens ch' (updateExecutor m) + closed_token ch' (chans m)" for ch'
    using keep[of ch'] by (simp add: gt)
  show ?thesis
    using assms unfolding st bcast_inv_def by (simp add: keep keep2)
qed

lemma closed_token_buf_upd:
  "closed_token ch' (cs[ch := (cs ! ch)\<lparr>buf := b\<rparr>]) = closed_token ch' cs"
  by (cases "ch' = ch") (auto simp: closed_token_def)

lemma closed_token_close_upd:
  "ch < length cs \<Longrightarrow> \<not> closed (cs ! ch) \<Longrightarrow>
   closed_token ch' (cs[ch := (cs ! ch)\<lparr>closed := True\<rparr>])
     = closed_token ch' cs + (if ch' = ch then 1 else 0)"
  by (cases "ch' = ch") (auto simp: closed_token_def)

lemma bcast_inv_tokens:
  "bcast_inv m \<Longrightarrow>
   reg_tokens ch (updateExecutor m) + wait_tokens ch (waiting m)
     + rem_tokens ch (updateExecutor m) + closed_token ch (chans m)
   = (if ch < length (chans m) then 1 else 0)"
  by (simp add: bcast_inv_def)

lemma bcast_inv_live:
  "bcast_inv m \<Longrightarrow>
   ch \<in> set (fanoutEventChs m) \<longleftrightarrow> 0 < wait_tokens ch (waiting m) + rem_tokens ch (updateExecutor m)"
  by (simp add: bcast_inv_def)

lemma bcast_inv_caps:
  "bcast_inv m \<Longrightarrow> ch < length (chans m) \<Longrightarrow>
   cap (chans m ! ch) = 100 \<and> length (buf (chans m ! ch)) \<le> 100"
  by (simp add: bcast_inv_def)

lemma bcast_inv_executor_step:
  assumes inv: "bcast_inv m"
  shows "bcast_inv (executor_step m)"
proof (cases m rule: executor_step_cases)
  case idle
  then show ?thesis using inv by simp
next
  case (send_closed ch e rest)
  then have "ch \<in> set (fanoutEventChs m)" using inv by (auto simp: bcast_inv_def)
  with bcast_inv_in_range(2)[OF inv this] send_closed show ?thesis by simp
next
  case (send_ok ch e rest)
  then have live: "ch \<in> set (fanoutEventChs m)" using inv by (auto simp: bcast_inv_def)
  have rng: "ch < length (chans m)" by (rule bcast_inv_in_range(1)[OF inv live])
  have cp: "cap (chans m ! ch) = 100" using bcast_inv_caps[OF inv rng] by simp
  have caps: "cap ((chans m)[ch := (chans m ! ch)\<lparr>buf := buf (chans m ! ch) @ [e]\<rparr>] ! ch') = 100
      \<and> length (buf ((chans m)[ch := (chans m ! ch)\<lparr>buf := buf (chans m ! ch) @ [e]\<rparr>] ! ch')) \<le> 100"
    if "ch' < length (chans m)" for ch'
    using bcast_inv_caps[OF inv that] send_ok(3) cp rng
    by (cases "ch' = ch") auto
  show ?thesis
    using inv caps unfolding send_ok(4) bcast_inv_def
    by (auto simp: closed_token_buf_upd send_ok(1))
next
  case (blocked ch e rest)
  then show ?thesis using inv by simp
next
  case (register ch c q)
  have tot: "reg_tokens ch (updateExecutor m) + wait_tokens ch (waiting m)
     + rem_tokens ch (updateExecutor m) + closed_token ch (chans m)
     = (if ch < length (chans m) then 1 else 0)"
    by (rule bcast_inv_tokens[OF inv])
  have reg1: "reg_tokens ch (updateExecutor m) = Suc (reg_tokens ch q)"
    by (simp add: register(2) reg_tokens_def)
  from tot reg1 have z: "wait_tokens ch (waiting m) = 0" "rem_tokens ch (updateExecutor m) = 0"
    by (auto split: if_splits)
  then have notlive: "ch \<notin> set (fanoutEventChs m)" using bcast_inv_live[OF inv, of ch] by simp
  have regs: "reg_tokens ch' q = reg_tokens ch' (updateExecutor m) - (if ch' = ch then 1 else 0)" for ch'
    by (simp add: register(2) reg_tokens_def)
  have rems: "rem_tokens ch' q = rem_tokens ch' (updateExecutor m)" for ch'
    by (simp add: register(2) rem_tokens_def)
  have waits: "wait_tokens ch' (waiting m @ [(c, ch)])
      = wait_tokens ch' (waiting m) + (if ch' = ch then 1 else 0)" for ch'
    by (simp add: wait_tokens_def)
  have tot': "reg_tokens ch' q + wait_tokens ch' (waiting m @ [(c, ch)]) + rem_tokens ch' q
      + closed_token ch' (chans m) = (if ch' < length (chans m) then 1 else 0)" for ch'
    using bcast_inv_tokens[OF inv, of ch'] reg1 by (auto simp: regs rems waits)
  have live': "ch' \<in> set (fanoutEventChs m @ [ch])
      \<longleftrightarrow> 0 < wait_tokens ch' (waiting m @ [(c, ch)]) + rem_tokens ch' q" for ch'
    using bcast_inv_live[OF inv, of ch'] by (auto simp: rems waits)
  show ?thesis
    using inv notlive tot' live' unfolding register(3) bcast_inv_def
    by (simp add: register(1))
next
  case (remove_closed ch q)
  have tot: "reg_tokens ch (updateExecutor m) + wait_tokens ch (waiting m)
     + rem_tokens ch (updateExecutor m) + closed_token ch (chans m)
     = (if ch < length (chans m) then 1 else 0)"
    by (rule bcast_inv_tokens[OF inv])
  have "rem_tokens ch (updateExecutor m) = Suc (rem_tokens ch q)"
    by (simp add: remove_closed(2) rem_tokens_def)
  with tot have "closed_token ch (chans m) = 0" "ch < length (chans m)"
    by (auto split: if_splits)
  with remove_closed(3) show ?thesis by (simp add: closed_token_def)
next
  case (remove_ok ch q)
  have tot: "reg_tokens ch (updateExecutor m) + wait_tokens ch (waiting m)
     + rem_tokens ch (updateExecutor m) + closed_token ch (chans m)
     = (if ch < length (chans m) then 1 else 0)"
    by (rule bcast_inv_tokens[OF inv])
  have rem1: "rem_tokens ch (updateExecutor m) = Suc (rem_tokens ch q)"
    by (simp add: remove_ok(2) rem_tokens_def)
  with tot have rng: "ch < length (chans m)"
    and z: "wait_tokens ch (waiting m) = 0" "rem_tokens ch q = 0"
    by (auto split: if_splits)
  have regs: "reg_tokens ch' q = reg_tokens ch' (updateExecutor m)" for ch'
    by (simp add: remove_ok(2) reg_tokens_def)
  have rems: "rem_tokens ch' q + (if ch' = ch then 1 else 0) = rem_tokens ch' (updateExecutor m)" for ch'
    by (auto simp: remove_ok(2) rem_tokens_def)
  have tot': "reg_tokens ch' q + wait_tokens ch' (waiting m) + rem_tokens ch' q
      + closed_token ch' ((chans m)[ch := (chans m ! ch)\<lparr>closed := True\<rparr>])
      = (if ch' < length (chans m) then 1 else 0)" for ch'
    using bcast_inv_tokens[OF inv, of ch'] rems[of ch']
    by (simp add: regs closed_token_close_upd[OF rng remove_ok(3)])
  have live': "ch' \<in> set (filter (\<lambda>x. x \<noteq> ch) (fanoutEventChs m))
      \<longleftrightarrow> 0 < wait_tokens ch' (waiting m) + rem_tokens ch' q" for ch'
    using bcast_inv_live[OF inv, of ch'] rems[of ch'] z by (cases "ch' = ch") auto
  have caps: "cap ((chans m)[ch := (chans m ! ch)\<lparr>closed := True\<rparr>] ! ch') = 100
      \<and> length (buf ((chans m)[ch := (chans m ! ch)\<lparr>closed := True\<rparr>] ! ch')) \<le> 100"
    if "ch' < length (chans m)" for ch'
    using bcast_inv_caps[OF inv that] that by (cases "ch' = ch") auto
  show ?thesis
    using inv tot' live' caps unfolding remove_ok(4) bcast_inv_def
    by (simp add: remove_ok(1))
next
  case (deliver e q)
  have regs: "reg_tokens ch' q = reg_tokens ch' (updateExecutor m)" for ch'
    by (simp add: deliver(2) reg_tokens_def)
  have rems: "rem_tokens ch' q = rem_tokens ch' (updateExecutor m)" for ch'
    by (simp add: deliver(2) rem_tokens_def)
  show ?thesis
    using inv unfolding deliver(3) bcast_inv_def
    by (simp add: regs rems image_image)
qed

lemma bcast_inv_Recv:
  assumes inv: "bcast_inv m"
  shows "bcast_inv (subscriber_Recv ch m)"
proof (cases "ch < length (chans m)")
  case False
  then show ?thesis using inv by (simp add: subscriber_Recv_def)
next
  case rng: True
  show ?thesis
  proof (cases "buf (chans m ! ch)")
    case Nil
    then show ?thesis using inv rng by (simp add: subscriber_Recv_def)
  next
    case (Cons e rest)
    have st: "subscriber_Recv ch m =
        m\<lparr>chans := (chans m)[ch := (chans m ! ch)\<lparr>buf := rest\<rparr>],
          trace := trace m @ [Received ch e]\<rparr>"
      using rng Cons by (simp add: subscriber_Recv_def)
    have caps: "cap ((chans m)[ch := (chans m ! ch)\<lparr>buf := rest\<rparr>] ! ch') = 100
        \<and> length (buf ((chans m)[ch := (chans m ! ch)\<lparr>buf := rest\<rparr>] ! ch')) \<le> 100"
      if "ch' < length (chans m)" for ch'
      using bcast_inv_caps[OF inv that] Cons that by (cases "ch' = ch") auto
    show ?thesis
      using inv caps unfolding st bcast_inv_def by (simp add: closed_token_buf_upd)
  qed
qed

lemma bcast_inv_step:
  assumes "bcast_inv m"
  shows "bcast_inv (step m a)"
proof (cases a)
  case (Subscribe c sel)
  then show ?thesis using assms by (simp add: bcast_inv_Subscribe)
next
  case (UpstreamSend e)
  then show ?thesis using assms by (simp add: bcast_inv_def)
next
  case UpstreamClose
  then show ?thesis using assms by (simp add: bcast_inv_def)
next
  case LoopRead
  then show ?thesis using assms by (simp add: bcast_inv_LoopRead)
next
  case (CtxCancel c)
  then show ?thesis using assms by (simp add: bcast_inv_def)
next
  case (CtxDone ch)
  then show ?thesis using assms by (simp add: bcast_inv_CtxDone)
next
  case ExecutorStep
  then show ?thesis using assms by (simp add: bcast_inv_executor_step)
next
  case (SubscriberRecv ch)
  then show ?thesis using assms by (simp add: bcast_inv_Recv)
qed

lemma bcast_inv_foldl: "bcast_inv m \<Longrightarrow> bcast_inv (foldl step m acts)"
  by (induction acts arbitrary: m) (simp_all add: bcast_inv_step)

lemma bcast_inv_run: "bcast_inv (run pending acts)"
  by (simp add: run_def bcast_inv_foldl bcast_inv_init)

lemma run_snoc: "run pending (acts @ [a]) = step (run pending acts) a"
  by (simp add: run_def)

lemma run_Nil: "run pending [] = NewMonitorConnectionClient pending"
  by (simp add: run_def)

subsection \<open>Traces\<close>

lemma before_append:
  "before a b (xs @ ys) = (before a b xs \<or> (a \<in> set xs \<and> b \<in> set ys) \<or> before a b ys)"
  by (induction xs) auto

lemma after_close_append:
  "after_close ch (tr @ xs) =
     (if Closed ch \<in> set tr then after_close ch tr @ xs else after_close ch xs)"
proof (cases "Closed ch \<in> set tr")
  case True
  then have ne: "dropWhile (\<lambda>x. x \<noteq> Closed ch) tr \<noteq> []" by (auto simp: dropWhile_eq_Nil_conv)
  have "dropWhile (\<lambda>x. x \<noteq> Closed ch) (tr @ xs) = dropWhile (\<lambda>x. x \<noteq> Closed ch) tr @ xs"
    using True by (simp add: dropWhile_append1)
  with ne True show ?thesis by (simp add: after_close_def)
next
  case False
  then have "dropWhile (\<lambda>x. x \<noteq> Closed ch) (tr @ xs) = dropWhile (\<lambda>x. x \<noteq> Closed ch) xs"
    by (induction tr) auto
  with False show ?thesis by (simp add: after_close_def)
qed

lemma after_close_simps:
  "after_close ch [] = []"
  "after_close ch (x # xs) = (if x = Closed ch then xs else after_close ch xs)"
  by (simp_all add: after_close_def)

lemma closes_mem: "Closed ch \<in> set tr \<longleftrightarrow> 0 < closes ch tr"
  by (auto simp: closes_def filter_empty_conv)

lemma closes_append: "closes ch (tr @ xs) = closes ch tr + closes ch xs"
  by (simp add: closes_def)

lemma closes_simps:
  "closes ch [] = 0"
  "closes ch (x # xs) = (if x = Closed ch then 1 else 0) + closes ch xs"
  by (simp_all add: closes_def)

lemma track_fst:
  "fst (track ch p x) =
     (case x of Registered c \<Rightarrow> (if c = ch then True else fst p)
              | Removed c \<Rightarrow> (if c = ch then False else fst p)
              | _ \<Rightarrow> fst p)"
  by (cases p; cases x) auto

lemma track_snd:
  "snd (track ch p x) =
     (case x of Begin e \<Rightarrow> (if fst p then snd p @ [e] else snd p) | _ \<Rightarrow> snd p)"
  by (cases p; cases x) auto

lemma live_in_snoc:
  "live_in ch (tr @ [x]) =
     (case x of Registered c \<Rightarrow> (if c = ch then True else live_in ch tr)
              | Removed c \<Rightarrow> (if c = ch then False else live_in ch tr)
              | _ \<Rightarrow> live_in ch tr)"
  by (cases x) (simp_all add: live_in_def track_fst)

lemma owed_snoc:
  "owed ch (tr @ [x]) =
     (case x of Begin e \<Rightarrow> (if live_in ch tr then owed ch tr @ [e] else owed ch tr)
              | _ \<Rightarrow> owed ch tr)"
  by (cases x) (simp_all add: owed_def live_in_def track_snd)

lemma pushed_append: "pushed ch (tr @ xs) = pushed ch tr @ pushed ch xs"
  by (simp add: pushed_def)

lemma received_append: "received ch (tr @ xs) = received ch tr @ received ch xs"
  by (simp add: received_def)

lemma pushed_simps:
  "pushed ch [] = []"
  "pushed ch (x # xs) = pushed_ev ch x @ pushed ch xs"
  by (simp_all add: pushed_def)

lemma received_simps:
  "received ch [] = []"
  "received ch (x # xs) = received_ev ch x @ received ch xs"
  by (simp_all add: received_def)

lemmas trace_simps = before_append after_close_append after_close_simps closes_append
  closes_simps pushed_append pushed_simps received_append received_simps

lemma live_in_Removed_Closed:
  "live_in ch (tr @ [Removed c, Closed c']) = (if c = ch then False else live_in ch tr)"
  by (simp add: live_in_def track_fst)

lemma owed_Removed_Closed: "owed ch (tr @ [Removed c, Closed c']) = owed ch tr"
  by (simp add: owed_def track_snd)

lemma sends_of_delivery:
  "distinct xs \<Longrightarrow>
   map snd (filter (\<lambda>(c, e). c = ch) (map (\<lambda>c. (c, e)) xs)) = (if ch \<in> set xs then [e] else [])"
  by (induction xs) auto

subsection \<open>The invariant of the trace\<close>

lemma trace_inv_init: "trace_inv (NewMonitorConnectionClient pending)"
  by (simp add: trace_inv_def trace_ok_def NewMonitorConnectionClient_def trace_simps
      closed_token_def live_in_def owed_def)

lemma trace_invD:
  assumes "trace_inv m"
  shows "closes ch (trace m) = closed_token ch (chans m)"
    and "Closed ch \<in> set (trace m) \<Longrightarrow> before (Removed ch) (Closed ch) (trace m)"
    and "pushed ch (after_close ch (trace m)) = []"
    and "live_in ch (trace m) = (ch \<in> set (fanoutEventChs m))"
    and "pushed ch (trace m) @ map snd (filter (\<lambda>(c, e). c = ch) (sending m)) = owed ch (trace m)"
    and "ch < length (chans m) \<Longrightarrow> received ch (trace m) @ buf (chans m ! ch) = pushed ch (trace m)"
    and "\<not> ch < length (chans m) \<Longrightarrow> pushed ch (trace m) = [] \<and> received ch (trace m) = []"
  using assms by (simp_all add: trace_inv_def trace_ok_def)

lemma trace_inv_Subscribe:
  assumes "trace_inv m"
  shows "trace_inv (snd (MonitorConnections c sel m))"
  unfolding trace_inv_def
proof
  fix ch
  have ct: "closed_token ch (chans m @ [\<lparr>buf = [], cap = 100, closed = False\<rparr>]) = closed_token ch (chans m)"
    by (auto simp: closed_token_def nth_append)
  show "trace_ok (snd (MonitorConnections c sel m)) ch"
    using trace_invD[OF assms, of ch]
    by (auto simp: trace_ok_def MonitorConnections_def AsyncExec_def Let_def ct trace_simps
        live_in_snoc owed_snoc nth_append less_Suc_eq)
qed

lemma trace_inv_LoopRead:
  assumes "trace_inv m"
  shows "trace_inv (eventLoop_read m)"
  using assms
  by (cases "eventCh m") (simp_all add: eventLoop_read_def AsyncExec_def trace_inv_def trace_ok_def)

lemma trace_inv_CtxDone:
  assumes "trace_inv m"
  shows "trace_inv (ctx_Done ch m)"
  using assms
  by (cases "filter (\<lambda>(c, ch'). ch' = ch \<and> c \<in> set (cancelled m)) (waiting m)")
     (simp_all add: ctx_Done_def AsyncExec_def trace_inv_def trace_ok_def)

lemma not_closed_not_in_trace:
  assumes "trace_inv m" "ch < length (chans m)" "\<not> closed (chans m ! ch)"
  shows "Closed ch \<notin> set (trace m)"
  using trace_invD(1)[OF assms(1), of ch] assms(2,3)
  by (simp add: closes_mem closed_token_def)

lemma trace_inv_executor_step:
  assumes inv: "bcast_inv m" and tinv: "trace_inv m"
  shows "trace_inv (executor_step m)"
proof (cases m rule: executor_step_cases)
  case idle
  then show ?thesis using tinv by simp
next
  case (send_closed ch e rest)
  then have "ch \<in> set (fanoutEventChs m)" using inv by (auto simp: bcast_inv_def)
  with bcast_inv_in_range(2)[OF inv this] send_closed show ?thesis by simp
next
  case (send_ok ch e rest)
  then have live: "ch \<in> set (fanoutEventChs m)" using inv by (auto simp: bcast_inv_def)
  have rng: "ch < length (chans m)" by (rule bcast_inv_in_range(1)[OF inv live])
  have nc: "Closed ch \<notin> set (trace m)"
    by (rule not_closed_not_in_trace[OF tinv rng send_ok(2)])
  show ?thesis
    unfolding trace_inv_def
  proof
    fix ch'
    show "trace_ok (executor_step m) ch'"
      using trace_invD[OF tinv, of ch'] nc rng
      unfolding send_ok(4)
      by (cases "ch' = ch")
         (auto simp: trace_ok_def send_ok(1) closed_token_buf_upd trace_simps live_in_snoc owed_snoc)
  qed
next
  case (blocked ch e rest)
  then show ?thesis using tinv by simp
next
  case (register ch c q)
  show ?thesis
    unfolding trace_inv_def
  proof
    fix ch'
    show "trace_ok (executor_step m) ch'"
      using trace_invD[OF tinv, of ch']
      unfolding register(3)
      by (auto simp: trace_ok_def register(1) trace_simps live_in_snoc owed_snoc)
  qed
next
  case (remove_closed ch q)
  have "rem_tokens ch (updateExecutor m) = Suc (rem_tokens ch q)"
    by (simp add: remove_closed(2) rem_tokens_def)
  with bcast_inv_tokens[OF inv, of ch]
  have "closed_token ch (chans m) = 0" "ch < length (chans m)"
    by (auto split: if_splits)
  with remove_closed(3) show ?thesis by (simp add: closed_token_def)
next
  case (remove_ok ch q)
  have "rem_tokens ch (updateExecutor m) = Suc (rem_tokens ch q)"
    by (simp add: remove_ok(2) rem_tokens_def)
  with bcast_inv_tokens[OF inv, of ch] have rng: "ch < length (chans m)"
    by (auto split: if_splits)
  have nc: "Closed ch \<notin> set (trace m)"
    by (rule not_closed_not_in_trace[OF tinv rng remove_ok(3)])
  show ?thesis
    unfolding trace_inv_def
  proof
    fix ch'
    show "trace_ok (executor_step m) ch'"
      using trace_invD[OF tinv, of ch'] nc rng
      unfolding remove_ok(4)
      by (cases "ch' = ch")
         (auto simp: trace_ok_def remove_ok(1) closed_token_close_upd[OF rng remove_ok(3)]
            trace_simps live_in_Removed_Closed owed_Removed_Closed)
  qed
next
  case (deliver e q)
  have d: "distinct (fanoutEventChs m)" using inv by (simp add: bcast_inv_def)
  show ?thesis
    unfolding trace_inv_def
  proof
    fix ch'
    show "trace_ok (executor_step m) ch'"
      using trace_invD[OF tinv, of ch']
      unfolding deliver(3)
      by (auto simp: trace_ok_def deliver(1) trace_simps live_in_snoc owed_snoc
          sends_of_delivery[OF d])
  qed
qed

lemma trace_inv_Recv:
  assumes tinv: "trace_inv m"
  shows "trace_inv (subscriber_Recv ch m)"
proof (cases "ch < length (chans m)")
  case False
  then show ?thesis using tinv by (simp add: subscriber_Recv_def)
next
  case rng: True
  show ?thesis
  proof (cases "buf (chans m ! ch)")
    case Nil
    then show ?thesis using tinv rng by (simp add: subscriber_Recv_def)
  next
    case (Cons e rest)
    have st: "subscriber_Recv ch m =
        m\<lparr>chans := (chans m)[ch := (chans m ! ch)\<lparr>buf := rest\<rparr>],
          trace := trace m @ [Received ch e]\<rparr>"
      using rng Cons by (simp add: subscriber_Recv_def)
    show ?thesis
      unfolding trace_inv_def
    proof
      fix ch'
      show "trace_ok (subscriber_Recv ch m) ch'"
        using trace_invD[OF tinv, of ch'] rng Cons
        unfolding st
        by (cases "ch' = ch")
           (auto simp: trace_ok_def closed_token_buf_upd trace_simps live_in_snoc owed_snoc)
    qed
  qed
qed

lemma trace_inv_step:
  assumes "bcast_inv m" "trace_inv m"
  shows "trace_inv (step m a)"
proof (cases a)
  case (Subscribe c sel)
  then show ?thesis using assms by (simp add: trace_inv_Subscribe)
next
  case (UpstreamSend e)
  then show ?thesis using assms by (simp add: trace_inv_def trace_ok_def)
next
  case UpstreamClose
  then show ?thesis using assms by (simp add: trace_inv_def trace_ok_def)
next
  case LoopRead
  then show ?thesis using assms by (simp add: trace_inv_LoopRead)
next
  case (CtxCancel c)
  then show ?thesis using assms by (simp add: trace_inv_def trace_ok_def)
next
  case (CtxDone ch)
  then show ?thesis using assms by (simp add: trace_inv_CtxDone)
next
  case ExecutorStep
  then show ?thesis using assms by (simp add: trace_inv_executor_step)
next
  case (SubscriberRecv ch)
  then show ?thesis using assms by (simp add: trace_inv_Recv)
qed

lemma invs_foldl:
  "bcast_inv m \<Longrightarrow> trace_inv m \<Longrightarrow> trace_inv (foldl step m acts)"
  by (induction acts arbitrary: m) (simp_all add: bcast_inv_step trace_inv_step)

lemma trace_inv_run: "trace_inv (run pending acts)"
  by (simp add: run_def invs_foldl bcast_inv_init trace_inv_init)

subsection \<open>Upstream order\<close>

lemma upstream_sent_snoc:
  "upstream_sent (acts @ [a]) =
     (if UpstreamClose \<in> set acts then upstream_sent acts
      else upstream_sent acts @ (case a of UpstreamSend e \<Rightarrow> [e] | _ \<Rightarrow> []))"
proof (induction acts)
  case Nil
  show ?case by (cases a) simp_all
next
  case (Cons b acts)
  then show ?case by (cases b) simp_all
qed

lemma begun_append: "begun (tr @ xs) = begun tr @ begun xs"
  by (simp add: begun_def)

lemma begun_simps: "begun [] = []" "begun (x # xs) = begun_ev x @ begun xs"
  by (simp_all add: begun_def)

lemma delivers_append: "delivers (q @ r) = delivers q @ delivers r"
  by (simp add: delivers_def)

lemma delivers_simps: "delivers [] = []" "delivers (t # q) = deliver_ev t @ delivers q"
  by (simp_all add: delivers_def)

lemmas flow_simps = flow_def begun_append begun_simps delivers_append delivers_simps

lemma flow_executor_step: "flow (executor_step m) = flow m"
  by (cases m rule: executor_step_cases) (simp_all add: flow_simps)

lemma flow_step:
  assumes "\<not> panicked m"
  shows "flow (step m a) =
           flow m @ (case a of UpstreamSend e \<Rightarrow> (if eventCh_closed m then [] else [e]) | _ \<Rightarrow> [])"
    and "eventCh_closed (step m a) = (eventCh_closed m \<or> a = UpstreamClose)"
proof -
  show "flow (step m a) =
           flow m @ (case a of UpstreamSend e \<Rightarrow> (if eventCh_closed m then [] else [e]) | _ \<Rightarrow> [])"
  proof (cases a)
    case (Subscribe c sel)
    then show ?thesis by (simp add: MonitorConnections_def AsyncExec_def Let_def flow_simps)
  next
    case (UpstreamSend e)
    then show ?thesis using assms by (simp add: flow_simps)
  next
    case UpstreamClose
    then show ?thesis by (simp add: flow_simps)
  next
    case LoopRead
    then show ?thesis
      by (cases "eventCh m") (simp_all add: eventLoop_read_def AsyncExec_def flow_simps)
  next
    case (CtxCancel c)
    then show ?thesis by (simp add: flow_simps)
  next
    case (CtxDone ch)
    then show ?thesis
      by (cases "filter (\<lambda>(c, ch'). ch' = ch \<and> c \<in> set (cancelled m)) (waiting m)")
         (simp_all add: ctx_Done_def AsyncExec_def flow_simps)
  next
    case ExecutorStep
    then show ?thesis by (simp add: flow_executor_step)
  next
    case (SubscriberRecv ch)
    then show ?thesis
      by (cases "buf (chans m ! ch)") (simp_all add: subscriber_Recv_def flow_simps)
  qed
  show "eventCh_closed (step m a) = (eventCh_closed m \<or> a = UpstreamClose)"
  proof (cases a)
    case (Subscribe c sel)
    then show ?thesis by (simp add: MonitorConnections_def AsyncExec_def Let_def)
  next
    case LoopRead
    then show ?thesis by (cases "eventCh m") (simp_all add: eventLoop_read_def AsyncExec_def)
  next
    case (CtxDone ch)
    then show ?thesis
      by (cases "filter (\<lambda>(c, ch'). ch' = ch \<and> c \<in> set (cancelled m)) (waiting m)")
         (simp_all add: ctx_Done_def AsyncExec_def)
  next
    case ExecutorStep
    then show ?thesis by (cases m rule: executor_step_cases) simp_all
  next
    case (SubscriberRecv ch)
    then show ?thesis by (cases "buf (chans m ! ch)") (simp_all add: subscriber_Recv_def)
  qed (use assms in simp_all)
qed

lemma flow_run:
  "flow (run pending acts) = pending @ upstream_sent acts
   \<and> eventCh_closed (run pending acts) = (UpstreamClose \<in> set acts)"
proof (induction acts rule: rev_induct)
  case Nil
  show ?case by (simp add: run_Nil NewMonitorConnectionClient_def flow_simps)
next
  case (snoc a acts)
  have np: "\<not> panicked (run pending acts)"
    using bcast_inv_run[of pending acts] by (simp add: bcast_inv_def)
  show ?case
    using snoc flow_step[OF np, of a]
    by (cases a) (auto simp: run_snoc upstream_sent_snoc)
qed

subsection \<open>The example schedules\<close>

lemma example_run:
  "run [] example_schedule =
     \<lparr>eventCh = [], eventCh_closed = False, fanoutEventChs = [0], updateExecutor = [],
      sending = [],
      chans = [\<lparr>buf = [''up''], cap = 100, closed = False\<rparr>,
               \<lparr>buf = [''down''], cap = 100, closed = True\<rparr>],
      waiting = [(1, 0)], cancelled = [2], panicked = False,
      trace = [Made 0, Made 1, Registered 0, Registered 1, Begin ''down'', Pushed 0 ''down'',
               Pushed 1 ''down'', Removed 1, Closed 1, Begin ''up'', Pushed 0 ''up'',
               Received 0 ''down'']\<rparr>"
  by (simp add: run_def example_schedule_def NewMonitorConnectionClient_def
      MonitorConnections_def AsyncExec_def eventLoop_read_def ctx_Done_def executor_step_def
      subscriber_Recv_def Let_def)

lemmas example_eval = run_def example_schedule_def NewMonitorConnectionClient_def
  MonitorConnections_def AsyncExec_def eventLoop_read_def ctx_Done_def executor_step_def
  subscriber_Recv_def Let_def

lemma concat_replicate_snoc: "concat (replicate n xs) @ xs = xs @ concat (replicate n xs)"
  by (induction n) simp_all

lemma flood_schedule_Suc: "flood_schedule (Suc n) = flood_schedule n @ flood_round"
  using concat_replicate_snoc[of n flood_round] by (simp add: flood_schedule_def)

lemma flooded_round:
  assumes "n < 100"
  shows "foldl step (flooded n) flood_round = flooded (Suc n)"
proof -
  have "replicate n ''e'' @ [''e''] = ''e'' # replicate n ''e''"
    by (rule replicate_append_same)
  moreover have "concat (replicate n [Begin ''e'', Pushed 0 ''e'']) @ [Begin ''e'', Pushed 0 ''e'']
      = [Begin ''e'', Pushed 0 ''e''] @ concat (replicate n [Begin ''e'', Pushed 0 ''e''])"
    by (rule concat_replicate_snoc)
  ultimately show ?thesis
    using assms
    by (simp add: flooded_def flood_round_def eventLoop_read_def AsyncExec_def executor_step_def)
qed

lemma flood_run: "n \<le> 100 \<Longrightarrow> run [] (flood_schedule n) = flooded n"
proof (induction n)
  case 0
  show ?case
    by (simp add: flood_schedule_def flooded_def run_def NewMonitorConnectionClient_def
        MonitorConnections_def AsyncExec_def executor_step_def Let_def)
next
  case (Suc n)
  then have "run [] (flood_schedule n) = flooded n" and "n < 100" by simp_all
  then show ?case
    using flooded_round[of n] by (simp add: flood_schedule_Suc run_def)
qed

lemma flood_blocked:
  "run [] (flood_schedule 100 @ [UpstreamSend ''e'', LoopRead, ExecutorStep])
     = (flooded 100)\<lparr>sending := [(0, ''e'')], trace := trace (flooded 100) @ [Begin ''e'']\<rparr>"
proof -
  have "run [] (flood_schedule 100 @ [UpstreamSend ''e'', LoopRead, ExecutorStep])
      = foldl step (flooded 100) [UpstreamSend ''e'', LoopRead, ExecutorStep]"
    using flood_run[of 100] by (simp add: run_def)
  then show ?thesis
    by (simp add: flooded_def eventLoop_read_def AsyncExec_def executor_step_def)
qed

subsection \<open>Close once, after removal, and no push afterwards\<close>

lemma bcast_inv_Remove_head:
  assumes inv: "bcast_inv m" and q: "updateExecutor m = Remove ch # q"
  shows "ch < length (chans m)" and "\<not> closed (chans m ! ch)"
proof -
  have "rem_tokens ch (updateExecutor m) = Suc (rem_tokens ch q)"
    by (simp add: q rem_tokens_def)
  with bcast_inv_tokens[OF inv, of ch]
  have "ch < length (chans m) \<and> closed_token ch (chans m) = 0"
    by (auto split: if_splits)
  then show "ch < length (chans m)" and "\<not> closed (chans m ! ch)"
    by (auto simp: closed_token_def split: if_splits)
qed

lemma bcast_inv_sending_head:
  assumes inv: "bcast_inv m" and s: "sending m = (c, e) # rest"
  shows "c < length (chans m)" and "\<not> closed (chans m ! c)" and "cap (chans m ! c) = 100"
proof -
  have live: "c \<in> set (fanoutEventChs m)" using inv s by (auto simp: bcast_inv_def)
  show rng: "c < length (chans m)" by (rule bcast_inv_in_range(1)[OF inv live])
  show "\<not> closed (chans m ! c)" by (rule bcast_inv_in_range(2)[OF inv live])
  show "cap (chans m ! c) = 100" using bcast_inv_caps[OF inv rng] by simp
qed

lemma closed_not_live:
  assumes inv: "bcast_inv m" and tinv: "trace_inv m" and c: "Closed ch \<in> set (trace m)"
  shows "ch \<notin> set (fanoutEventChs m)" and "ch \<notin> fst ` set (sending m)"
proof -
  from c trace_invD(1)[OF tinv, of ch] have "closed_token ch (chans m) \<noteq> 0"
    by (simp add: closes_mem)
  then have cl: "closed (chans m ! ch)" by (auto simp: closed_token_def split: if_splits)
  then show nl: "ch \<notin> set (fanoutEventChs m)" using bcast_inv_in_range(2)[OF inv] by blast
  from inv have "fst ` set (sending m) \<subseteq> set (fanoutEventChs m)" by (simp add: bcast_inv_def)
  with nl show "ch \<notin> fst ` set (sending m)" by blast
qed

subsection \<open>Progress: what the executor can always finish\<close>

lemma quiet_simps [simp]:
  "quiet ExecutorStep" "quiet LoopRead" "quiet (SubscriberRecv ch)"
  by (simp_all add: quiet_def)

lemma step_push_after_recv:
  assumes inv: "bcast_inv m" and s: "sending m = (c, e) # rest"
  shows "\<exists>acts. list_all quiet acts
           \<and> sending (foldl step m acts) = rest
           \<and> updateExecutor (foldl step m acts) = updateExecutor m
           \<and> eventCh (foldl step m acts) = eventCh m"
proof -
  have np: "\<not> panicked m" using inv by (simp add: bcast_inv_def)
  note hd = bcast_inv_sending_head[OF inv s]
  show ?thesis
  proof (cases "length (buf (chans m ! c)) < 100")
    case True
    then have "sending (foldl step m [ExecutorStep]) = rest
        \<and> updateExecutor (foldl step m [ExecutorStep]) = updateExecutor m
        \<and> eventCh (foldl step m [ExecutorStep]) = eventCh m"
      using s np hd by (simp add: executor_step_def)
    moreover have "list_all quiet [ExecutorStep]" by simp
    ultimately show ?thesis by blast
  next
    case False
    with bcast_inv_caps[OF inv hd(1)] have full: "length (buf (chans m ! c)) = 100" by simp
    then obtain x xs where b: "buf (chans m ! c) = x # xs" by (cases "buf (chans m ! c)") auto
    with full have lx: "length xs < 100" by simp
    have "sending (foldl step m [SubscriberRecv c, ExecutorStep]) = rest
        \<and> updateExecutor (foldl step m [SubscriberRecv c, ExecutorStep]) = updateExecutor m
        \<and> eventCh (foldl step m [SubscriberRecv c, ExecutorStep]) = eventCh m"
      using s np hd b lx by (simp add: subscriber_Recv_def executor_step_def)
    moreover have "list_all quiet [SubscriberRecv c, ExecutorStep]" by simp
    ultimately show ?thesis by blast
  qed
qed

lemma drain:
  assumes "bcast_inv m"
  shows "\<exists>acts. list_all quiet acts
           \<and> sending (foldl step m acts) = []
           \<and> updateExecutor (foldl step m acts) = []
           \<and> eventCh (foldl step m acts) = []"
  using assms
proof (induction m rule: wf_induct_rule[OF wf_measures[of
        "[\<lambda>m. length (eventCh m), \<lambda>m. length (updateExecutor m), \<lambda>m. length (sending m)]"]])
  case (1 m)
  note inv = \<open>bcast_inv m\<close>
  have np: "\<not> panicked m" using inv by (simp add: bcast_inv_def)
  have IH: "\<exists>acts. list_all quiet acts
           \<and> sending (foldl step (foldl step m pre) acts) = []
           \<and> updateExecutor (foldl step (foldl step m pre) acts) = []
           \<and> eventCh (foldl step (foldl step m pre) acts) = []"
    if "length (eventCh (foldl step m pre)) < length (eventCh m)
        \<or> length (eventCh (foldl step m pre)) = length (eventCh m)
          \<and> (length (updateExecutor (foldl step m pre)) < length (updateExecutor m)
             \<or> length (updateExecutor (foldl step m pre)) = length (updateExecutor m)
               \<and> length (sending (foldl step m pre)) < length (sending m))" for pre
    using "1.IH"[of "foldl step m pre"] that bcast_inv_foldl[OF inv, of pre]
    by auto
  have glue: "\<exists>acts. list_all quiet acts
           \<and> sending (foldl step m acts) = []
           \<and> updateExecutor (foldl step m acts) = []
           \<and> eventCh (foldl step m acts) = []"
    if "list_all quiet pre" and "\<exists>acts. list_all quiet acts
           \<and> sending (foldl step (foldl step m pre) acts) = []
           \<and> updateExecutor (foldl step (foldl step m pre) acts) = []
           \<and> eventCh (foldl step (foldl step m pre) acts) = []" for pre
  proof -
    from that(2) obtain acts where "list_all quiet acts"
      "sending (foldl step (foldl step m pre) acts) = []"
      "updateExecutor (foldl step (foldl step m pre) acts) = []"
      "eventCh (foldl step (foldl step m pre) acts) = []" by blast
    with that(1) have "list_all quiet (pre @ acts)
        \<and> sending (foldl step m (pre @ acts)) = []
        \<and> updateExecutor (foldl step m (pre @ acts)) = []
        \<and> eventCh (foldl step m (pre @ acts)) = []" by simp
    then show ?thesis by blast
  qed
  show ?case
  proof (cases "sending m")
    case (Cons p rest)
    obtain c e where p: "p = (c, e)" by (cases p)
    from step_push_after_recv[OF inv Cons[unfolded p]] obtain pre where
      pre: "list_all quiet pre" "sending (foldl step m pre) = rest"
      "updateExecutor (foldl step m pre) = updateExecutor m"
      "eventCh (foldl step m pre) = eventCh m" by blast
    show ?thesis
      by (rule glue[OF pre(1)], rule IH) (simp add: pre Cons)
  next
    case Nil
    show ?thesis
    proof (cases "updateExecutor m")
      case (Cons t q)
      have "updateExecutor (foldl step m [ExecutorStep]) = q
          \<and> eventCh (foldl step m [ExecutorStep]) = eventCh m"
        using np Nil Cons bcast_inv_Remove_head[OF inv]
        by (cases t) (simp_all add: executor_step_def Let_def)
      then show ?thesis
        by (intro glue[of "[ExecutorStep]"] IH) (simp_all add: Cons)
    next
      case Nil2: Nil
      show ?thesis
      proof (cases "eventCh m")
        case Nil3: Nil
        have "list_all quiet [] \<and> sending (foldl step m []) = []
            \<and> updateExecutor (foldl step m []) = [] \<and> eventCh (foldl step m []) = []"
          using Nil Nil2 Nil3 by simp
        then show ?thesis by blast
      next
        case (Cons e es)
        have "eventCh (foldl step m [LoopRead]) = es"
          using np Cons by (simp add: eventLoop_read_def AsyncExec_def)
        then show ?thesis
          by (intro glue[of "[LoopRead]"] IH) (simp_all add: Cons)
      qed
    qed
  qed
qed

lemma upstream_sent_quiet:
  "list_all quiet later \<Longrightarrow> upstream_sent (acts @ later) = upstream_sent acts"
proof (induction later rule: rev_induct)
  case Nil
  show ?case by simp
next
  case (snoc a later)
  then have q: "quiet a" and IH: "upstream_sent (acts @ later) = upstream_sent acts" by simp_all
  have "upstream_sent ((acts @ later) @ [a]) = upstream_sent (acts @ later)"
    using q upstream_sent_snoc[of "acts @ later" a] by (cases a) (simp_all add: quiet_def)
  with IH show ?case by simp
qed

lemma run_append: "run pending (acts @ later) = foldl step (run pending acts) later"
  by (simp add: run_def)

lemma length_chans_step: "length (chans m) \<le> length (chans (step m a))"
proof (cases a)
  case (Subscribe c sel)
  then show ?thesis by (simp add: MonitorConnections_def AsyncExec_def Let_def)
next
  case LoopRead
  then show ?thesis by (cases "eventCh m") (simp_all add: eventLoop_read_def AsyncExec_def)
next
  case (CtxDone ch)
  then show ?thesis
    by (cases "filter (\<lambda>(c, ch'). ch' = ch \<and> c \<in> set (cancelled m)) (waiting m)")
       (simp_all add: ctx_Done_def AsyncExec_def)
next
  case ExecutorStep
  then show ?thesis by (cases m rule: executor_step_cases) simp_all
next
  case (SubscriberRecv ch)
  then show ?thesis by (cases "buf (chans m ! ch)") (simp_all add: subscriber_Recv_def)
qed simp_all

lemma length_chans_foldl: "length (chans m) \<le> length (chans (foldl step m acts))"
proof (induction acts arbitrary: m)
  case Nil
  show ?case by simp
next
  case (Cons a acts)
  from length_chans_step[of m a] Cons[of "step m a"] show ?case by simp
qed

lemma waiter_exists:
  "0 < wait_tokens ch w \<Longrightarrow> \<exists>c. (c, ch) \<in> set w"
  by (auto simp: wait_tokens_def filter_empty_conv)

lemma close_reachable:
  assumes inv: "bcast_inv m" and rng: "ch < length (chans m)"
  shows "\<exists>acts. closed (chans (foldl step m acts) ! ch)"
proof -
  from drain[OF inv] obtain acts1 where
    d: "sending (foldl step m acts1) = []" "updateExecutor (foldl step m acts1) = []"
    by blast
  define m1 where "m1 = foldl step m acts1"
  have inv1: "bcast_inv m1" unfolding m1_def by (rule bcast_inv_foldl[OF inv])
  have np1: "\<not> panicked m1" using inv1 by (simp add: bcast_inv_def)
  have q1: "sending m1 = []" "updateExecutor m1 = []" using d by (simp_all add: m1_def)
  have rng1: "ch < length (chans m1)"
    using rng length_chans_foldl[of m acts1] by (simp add: m1_def)
  show ?thesis
  proof (cases "closed (chans m1 ! ch)")
    case True
    then show ?thesis unfolding m1_def by blast
  next
    case False
    with bcast_inv_tokens[OF inv1, of ch] rng1 q1
    have "wait_tokens ch (waiting m1) = 1"
      by (simp add: closed_token_def reg_tokens_def rem_tokens_def)
    then obtain c where w: "(c, ch) \<in> set (waiting m1)"
      using waiter_exists[of ch "waiting m1"] by auto
    define m2 where "m2 = step m1 (CtxCancel c)"
    have m2: "m2 = m1\<lparr>cancelled := c # cancelled m1\<rparr>" using np1 by (simp add: m2_def)
    have inv2: "bcast_inv m2" unfolding m2_def by (rule bcast_inv_step[OF inv1])
    have "(c, ch) \<in> set (filter (\<lambda>(c', ch'). ch' = ch \<and> c' \<in> set (cancelled m2)) (waiting m2))"
      using w by (simp add: m2)
    then obtain x xs where
      f: "filter (\<lambda>(c', ch'). ch' = ch \<and> c' \<in> set (cancelled m2)) (waiting m2) = x # xs"
      by (cases "filter (\<lambda>(c', ch'). ch' = ch \<and> c' \<in> set (cancelled m2)) (waiting m2)") auto
    define m3 where "m3 = step m2 (CtxDone ch)"
    have inv3: "bcast_inv m3" unfolding m3_def by (rule bcast_inv_step[OF inv2])
    have np3: "\<not> panicked m3" using inv3 by (simp add: bcast_inv_def)
    have q3: "updateExecutor m3 = Remove ch # []" "sending m3 = []"
      using f q1 np1 by (simp_all add: m3_def m2 ctx_Done_def AsyncExec_def)
    note h = bcast_inv_Remove_head[OF inv3 q3(1)]
    have "closed (chans (step m3 ExecutorStep) ! ch)"
      using q3 np3 h by (simp add: executor_step_def Let_def)
    then have "closed (chans (foldl step m (acts1 @ [CtxCancel c, CtxDone ch, ExecutorStep])) ! ch)"
      by (simp add: m3_def m2_def m1_def)
    then show ?thesis by blast
  qed
qed

lemma delivery_reachable:
  "\<exists>later. list_all quiet later
     \<and> sending (run pending (acts @ later)) = []
     \<and> updateExecutor (run pending (acts @ later)) = []
     \<and> eventCh (run pending (acts @ later)) = []
     \<and> begun (trace (run pending (acts @ later))) = pending @ upstream_sent acts
     \<and> (\<forall>ch. pushed ch (trace (run pending (acts @ later)))
              = owed ch (trace (run pending (acts @ later))))"
proof -
  from drain[OF bcast_inv_run[of pending acts]] obtain later where
    q: "list_all quiet later" and
    d: "sending (foldl step (run pending acts) later) = []"
       "updateExecutor (foldl step (run pending acts) later) = []"
       "eventCh (foldl step (run pending acts) later) = []"
    by blast
  let ?m = "run pending (acts @ later)"
  have m: "?m = foldl step (run pending acts) later" by (rule run_append)
  have fl: "flow ?m = pending @ upstream_sent acts"
    using flow_run[of pending "acts @ later"] upstream_sent_quiet[OF q, of acts] by simp
  have b: "begun (trace ?m) = pending @ upstream_sent acts"
    using fl d by (simp add: flow_def m delivers_def)
  have p: "pushed ch (trace ?m) = owed ch (trace ?m)" for ch
    using trace_invD(5)[OF trace_inv_run[of pending "acts @ later"], of ch] d(1)
    by (simp add: m)
  have d': "sending ?m = []" "updateExecutor ?m = []" "eventCh ?m = []"
    using d by (simp_all add: m)
  from q d' b p show ?thesis by blast
qed

subsection \<open>A delivery blocked on a full queue\<close>

text \<open>
  While the running delivery waits to send to a channel whose buffer is full, an executor
  step changes nothing, and whatever else happens, short of a receive from that channel,
  leaves the pending sends, the full buffer, the pushes and the closes as they are.
\<close>

lemma blocked_step:
  assumes inv: "bcast_inv m" and s: "sending m = (c, e) # rest"
    and full: "length (buf (chans m ! c)) = 100" and a: "a \<noteq> SubscriberRecv c"
  shows "sending (step m a) = sending m"
    and "buf (chans (step m a) ! c) = buf (chans m ! c)"
    and "pushed ch (trace (step m a)) = pushed ch (trace m)"
    and "closes ch (trace (step m a)) = closes ch (trace m)"
proof -
  have np: "\<not> panicked m" using inv by (simp add: bcast_inv_def)
  note hd = bcast_inv_sending_head[OF inv s]
  have ex: "executor_step m = m" using s hd full by (simp add: executor_step_def)
  have "sending (step m a) = sending m
      \<and> buf (chans (step m a) ! c) = buf (chans m ! c)
      \<and> pushed ch (trace (step m a)) = pushed ch (trace m)
      \<and> closes ch (trace (step m a)) = closes ch (trace m)"
  proof (cases a)
    case (Subscribe c' sel)
    then show ?thesis using np hd(1)
      by (simp add: MonitorConnections_def AsyncExec_def Let_def nth_append trace_simps)
  next
    case LoopRead
    then show ?thesis
      by (cases "eventCh m") (simp_all add: eventLoop_read_def AsyncExec_def)
  next
    case (CtxDone ch')
    then show ?thesis
      by (cases "filter (\<lambda>(c', x). x = ch' \<and> c' \<in> set (cancelled m)) (waiting m)")
         (simp_all add: ctx_Done_def AsyncExec_def)
  next
    case ExecutorStep
    then show ?thesis by (simp add: ex)
  next
    case (SubscriberRecv ch')
    with a have ne: "ch' \<noteq> c" by simp
    show ?thesis
      using SubscriberRecv ne
      by (cases "buf (chans m ! ch')") (simp_all add: subscriber_Recv_def trace_simps)
  qed simp_all
  then show "sending (step m a) = sending m"
    and "buf (chans (step m a) ! c) = buf (chans m ! c)"
    and "pushed ch (trace (step m a)) = pushed ch (trace m)"
    and "closes ch (trace (step m a)) = closes ch (trace m)" by simp_all
qed

lemma blocked_foldl:
  assumes "bcast_inv m" and "sending m = (c, e) # rest"
    and "length (buf (chans m ! c)) = 100"
  shows "sending (foldl step m (filter (\<lambda>a. a \<noteq> SubscriberRecv c) later)) = sending m
    \<and> buf (chans (foldl step m (filter (\<lambda>a. a \<noteq> SubscriberRecv c) later)) ! c) = buf (chans m ! c)
    \<and> pushed ch (trace (foldl step m (filter (\<lambda>a. a \<noteq> SubscriberRecv c) later))) = pushed ch (trace m)
    \<and> closes ch (trace (foldl step m (filter (\<lambda>a. a \<noteq> SubscriberRecv c) later))) = closes ch (trace m)"
  using assms
proof (induction later arbitrary: m)
  case Nil
  show ?case by simp
next
  case (Cons a later)
  show ?case
  proof (cases "a = SubscriberRecv c")
    case True
    then show ?thesis using Cons.IH[OF Cons.prems] by simp
  next
    case False
    note b = blocked_step(1,2)[OF Cons.prems False] blocked_step(3,4)[OF Cons.prems False, of ch]
    have inv': "bcast_inv (step m a)" by (rule bcast_inv_step[OF Cons.prems(1)])
    have s': "sending (step m a) = (c, e) # rest" using b(1) Cons.prems(2) by simp
    have f': "length (buf (chans (step m a) ! c)) = 100" using b(2) Cons.prems(3) by simp
    from Cons.IH[OF inv' s' f'] False b show ?thesis by simp
  qed
qed

lemma blocked_run:
  assumes "sending (run pending acts) = (c, e) # rest"
    and "length (buf (chans (run pending acts) ! c)) = 100"
  shows "pushed ch (trace (run pending (acts @ filter (\<lambda>a. a \<noteq> SubscriberRecv c) later)))
           = pushed ch (trace (run pending acts))"
    and "closes ch (trace (run pending (acts @ filter (\<lambda>a. a \<noteq> SubscriberRecv c) later)))
           = closes ch (trace (run pending acts))"
    and "sending (run pending (acts @ filter (\<lambda>a. a \<noteq> SubscriberRecv c) later))
           = sending (run pending acts)"
  using blocked_foldl[OF bcast_inv_run assms, of later ch] by (simp_all add: run_append)

text \<open>The states the schedules with a full buffer reach.\<close>

lemma jam_schedule_Suc: "jam_schedule (Suc n) = jam_schedule n @ jam_round"
  using concat_replicate_snoc[of n jam_round] by (simp add: jam_schedule_def)

lemma jammed_round:
  assumes "n < 100"
  shows "foldl step (jammed n) jam_round = jammed (Suc n)"
proof -
  have "replicate n ''e'' @ [''e''] = ''e'' # replicate n ''e''"
    by (rule replicate_append_same)
  moreover have "concat (replicate n [Begin ''e'', Pushed 0 ''e'', Pushed 1 ''e'', Received 1 ''e''])
        @ [Begin ''e'', Pushed 0 ''e'', Pushed 1 ''e'', Received 1 ''e'']
      = [Begin ''e'', Pushed 0 ''e'', Pushed 1 ''e'', Received 1 ''e'']
        @ concat (replicate n [Begin ''e'', Pushed 0 ''e'', Pushed 1 ''e'', Received 1 ''e''])"
    by (rule concat_replicate_snoc)
  ultimately show ?thesis
    using assms
    by (simp add: jammed_def jam_round_def eventLoop_read_def AsyncExec_def executor_step_def
        subscriber_Recv_def)
qed

lemma jam_run: "n \<le> 100 \<Longrightarrow> run [] (jam_schedule n) = jammed n"
proof (induction n)
  case 0
  show ?case
    by (simp add: jam_schedule_def jammed_def run_def NewMonitorConnectionClient_def
        MonitorConnections_def AsyncExec_def executor_step_def Let_def)
next
  case (Suc n)
  then have "run [] (jam_schedule n) = jammed n" and "n < 100" by simp_all
  then show ?case
    using jammed_round[of n] by (simp add: jam_schedule_Suc run_def)
qed

lemma jam_blocked_run:
  "run [] jam_blocked_schedule
     = (jammed 100)\<lparr>sending := [(0, ''E''), (1, ''E'')],
                    trace := trace (jammed 100) @ [Begin ''E'']\<rparr>"
proof -
  have "run [] jam_blocked_schedule
      = foldl step (jammed 100) [UpstreamSend ''E'', LoopRead, ExecutorStep]"
    using jam_run[of 100] by (simp add: run_def jam_blocked_schedule_def)
  then show ?thesis
    by (simp add: jammed_def eventLoop_read_def AsyncExec_def executor_step_def)
qed

lemma flood_cancelled_run:
  "run [] flood_cancelled_schedule
     = (flooded 100)\<lparr>sending := [(0, ''e'')], trace := trace (flooded 100) @ [Begin ''e''],
                     cancelled := [1], waiting := [], updateExecutor := [Remove 0]\<rparr>"
proof -
  have "run [] flood_cancelled_schedule
      = foldl step (run [] (flood_schedule 100 @ [UpstreamSend ''e'', LoopRead, ExecutorStep]))
          [CtxCancel 1, CtxDone 0]"
    by (simp add: run_def flood_cancelled_schedule_def)
  then show ?thesis
    by (simp add: flood_blocked flooded_def ctx_Done_def AsyncExec_def)
qed


lemma jammed_pushed: "pushed 1 (trace (jammed n)) = replicate n ''e''"
proof (induction n)
  case 0
  show ?case by (simp add: jammed_def trace_simps)
next
  case (Suc n)
  have "trace (jammed (Suc n))
      = trace (jammed n) @ [Begin ''e'', Pushed 0 ''e'', Pushed 1 ''e'', Received 1 ''e'']"
    using concat_replicate_snoc[of n "[Begin ''e'', Pushed 0 ''e'', Pushed 1 ''e'', Received 1 ''e'']"]
    by (simp add: jammed_def)
  then show ?case
    using Suc replicate_append_same[of n "''e''"] by (simp add: trace_simps)
qed

lemma cancelled_subscription_never_closed:
  "\<not> closed (chans (run [] (flood_cancelled_schedule
        @ filter (\<lambda>a. a \<noteq> SubscriberRecv 0) later)) ! 0)"
proof -
  let ?m = "run [] (flood_cancelled_schedule @ filter (\<lambda>a. a \<noteq> SubscriberRecv 0) later)"
  have s: "sending (run [] flood_cancelled_schedule) = (0, ''e'') # []"
    and f: "length (buf (chans (run [] flood_cancelled_schedule) ! 0)) = 100"
    by (simp_all add: flood_cancelled_run flooded_def)
  have "closes 0 (trace (run [] flood_cancelled_schedule)) = 0"
    using trace_invD(1)[OF trace_inv_run[of "[]" flood_cancelled_schedule], of 0]
    by (simp add: flood_cancelled_run flooded_def closed_token_def)
  with blocked_run(2)[OF s f, of 0 later] have "closes 0 (trace ?m) = 0" by simp
  then have ct: "closed_token 0 (chans ?m) = 0"
    using trace_invD(1)[OF trace_inv_run[of "[]" "flood_cancelled_schedule @ filter (\<lambda>a. a \<noteq> SubscriberRecv 0) later"], of 0]
    by simp
  have "length (chans (run [] flood_cancelled_schedule)) \<le> length (chans ?m)"
    using length_chans_foldl[of "run [] flood_cancelled_schedule"] by (simp add: run_append)
  then have "0 < length (chans ?m)" by (auto simp: flood_cancelled_run flooded_def)
  with ct show ?thesis by (simp add: closed_token_def split: if_splits)
qed

lemma blocked_delivery_never_pushed:
  "''E'' \<notin> set (pushed 1 (trace (run [] (jam_blocked_schedule
        @ filter (\<lambda>a. a \<noteq> SubscriberRecv 0) later))))"
proof -
  have s: "sending (run [] jam_blocked_schedule) = (0, ''E'') # [(1, ''E'')]"
    and f: "length (buf (chans (run [] jam_blocked_schedule) ! 0)) = 100"
    by (simp_all add: jam_blocked_run jammed_def)
  have "''E'' \<notin> set (pushed 1 (trace (run [] jam_blocked_schedule)))"
    using jammed_pushed[of 100] by (simp add: jam_blocked_run trace_simps)
  with blocked_run(1)[OF s f, of 1 later] show ?thesis by simp
qed

subsection \<open>Close at most once, after removal, and no push afterwards\<close>

text \<open>
  Claim C4, as stated, does not hold: a queue need not be closed at all, also when its
  subscription is cancelled. The one subscriber never receives; once its buffer holds 100
  events the delivery of the next event waits to send to it; its context is cancelled
  and the waiting goroutine submits the removal (lines 58 and 59), which is queued behind
  the delivery on the executor. The executor's step changes nothing, the channel is not
  closed, and it is not closed in any continuation in which the subscriber does not
  receive: the trace holds no close of it, not one.
\<close>

theorem cancelled_subscription_not_closed_counterexample:
  "cancelled (run [] flood_cancelled_schedule) = [1]
   \<and> waiting (run [] flood_cancelled_schedule) = []
   \<and> updateExecutor (run [] flood_cancelled_schedule) = [Remove 0]
   \<and> sending (run [] flood_cancelled_schedule) = [(0, ''e'')]
   \<and> length (buf (chans (run [] flood_cancelled_schedule) ! 0)) = 100
   \<and> \<not> closed (chans (run [] flood_cancelled_schedule) ! 0)
   \<and> closes 0 (trace (run [] flood_cancelled_schedule)) = 0
   \<and> step (run [] flood_cancelled_schedule) ExecutorStep = run [] flood_cancelled_schedule
   \<and> run [] (flood_cancelled_schedule @ [ExecutorStep, LoopRead, CtxDone 0, ExecutorStep])
      = run [] flood_cancelled_schedule
   \<and> (\<forall>later. \<not> closed (chans (run [] (flood_cancelled_schedule
          @ filter (\<lambda>a. a \<noteq> SubscriberRecv 0) later)) ! 0))
   \<and> (\<forall>later. closes 0 (trace (run [] (flood_cancelled_schedule
          @ filter (\<lambda>a. a \<noteq> SubscriberRecv 0) later))) = 0)"
proof -
  have s: "sending (run [] flood_cancelled_schedule) = (0, ''e'') # []"
    and f: "length (buf (chans (run [] flood_cancelled_schedule) ! 0)) = 100"
    by (simp_all add: flood_cancelled_run flooded_def)
  have c: "closes 0 (trace (run [] flood_cancelled_schedule)) = 0"
    using trace_invD(1)[OF trace_inv_run[of "[]" flood_cancelled_schedule], of 0]
    by (simp add: flood_cancelled_run flooded_def closed_token_def)
  have r: "run [] (flood_cancelled_schedule @ [ExecutorStep, LoopRead, CtxDone 0, ExecutorStep])
      = foldl step (run [] flood_cancelled_schedule) [ExecutorStep, LoopRead, CtxDone 0, ExecutorStep]"
    by (rule run_append)
  have n: "\<forall>later. \<not> closed (chans (run [] (flood_cancelled_schedule
          @ filter (\<lambda>a. a \<noteq> SubscriberRecv 0) later)) ! 0)"
    using cancelled_subscription_never_closed by blast
  have z: "\<forall>later. closes 0 (trace (run [] (flood_cancelled_schedule
          @ filter (\<lambda>a. a \<noteq> SubscriberRecv 0) later))) = 0"
    using blocked_run(2)[OF s f, of 0] c by simp
  have "cancelled (run [] flood_cancelled_schedule) = [1]
   \<and> waiting (run [] flood_cancelled_schedule) = []
   \<and> updateExecutor (run [] flood_cancelled_schedule) = [Remove 0]
   \<and> sending (run [] flood_cancelled_schedule) = [(0, ''e'')]
   \<and> length (buf (chans (run [] flood_cancelled_schedule) ! 0)) = 100
   \<and> \<not> closed (chans (run [] flood_cancelled_schedule) ! 0)
   \<and> closes 0 (trace (run [] flood_cancelled_schedule)) = 0
   \<and> step (run [] flood_cancelled_schedule) ExecutorStep = run [] flood_cancelled_schedule
   \<and> run [] (flood_cancelled_schedule @ [ExecutorStep, LoopRead, CtxDone 0, ExecutorStep])
      = run [] flood_cancelled_schedule"
    using c unfolding r
    by (simp add: flood_cancelled_run flooded_def executor_step_def eventLoop_read_def
        ctx_Done_def)
  with n z show ?thesis by blast
qed

text \<open>
  Claim C4, amended. In every state the broadcaster can reach, under any schedule: there
  was no panic (no send on a closed channel, no second close); the trace holds at most
  one close of a channel, and exactly one when the channel is closed; a close in the
  trace comes after the removal of the channel from the live set, and the channel is then
  neither in the live set nor a target of the running delivery; no push to the channel
  follows its close; when the removal task of a channel is the next task to run, the
  executor's step removes the channel from the live set and then closes it, and some
  continuation of the schedule closes any channel made. But while the running delivery
  waits to send to a full channel, an executor step changes nothing and no channel is
  closed in any continuation in which the subscriber of the full channel does not
  receive.
\<close>

theorem fanout_queue_closed_at_most_once_after_removal:
  "let m = run pending acts in
     \<not> panicked m
     \<and> closes ch (trace m) \<le> 1
     \<and> (closes ch (trace m) = 1) = (ch < length (chans m) \<and> closed (chans m ! ch))
     \<and> (Closed ch \<in> set (trace m) \<longrightarrow>
          before (Removed ch) (Closed ch) (trace m)
          \<and> ch \<notin> set (fanoutEventChs m)
          \<and> ch \<notin> fst ` set (sending m))
     \<and> pushed ch (after_close ch (trace m)) = []
     \<and> (sending m = [] \<and> updateExecutor m = Remove ch # q \<longrightarrow>
          trace (step m ExecutorStep) = trace m @ [Removed ch, Closed ch]
          \<and> ch \<notin> set (fanoutEventChs (step m ExecutorStep))
          \<and> closed (chans (step m ExecutorStep) ! ch))
     \<and> (ch < length (chans m) \<longrightarrow>
          (\<exists>later. closed (chans (run pending (acts @ later)) ! ch)
             \<and> closes ch (trace (run pending (acts @ later))) = 1))
     \<and> (sending m = (c, e) # rest \<and> length (buf (chans m ! c)) = 100 \<longrightarrow>
          step m ExecutorStep = m
          \<and> (\<forall>later. closes ch (trace (run pending
                  (acts @ filter (\<lambda>a. a \<noteq> SubscriberRecv c) later))) = closes ch (trace m)))"
proof -
  define m where "m = run pending acts"
  have inv: "bcast_inv m" unfolding m_def by (rule bcast_inv_run)
  have tinv: "trace_inv m" unfolding m_def by (rule trace_inv_run)
  have np: "\<not> panicked m" using inv by (simp add: bcast_inv_def)
  have cl: "closes ch (trace m) = closed_token ch (chans m)" by (rule trace_invD(1)[OF tinv])
  have le: "closes ch (trace m) \<le> 1" by (simp add: cl closed_token_def)
  have once: "(closes ch (trace m) = 1) = (ch < length (chans m) \<and> closed (chans m ! ch))"
    by (simp add: cl closed_token_def)
  have after: "before (Removed ch) (Closed ch) (trace m)
      \<and> ch \<notin> set (fanoutEventChs m) \<and> ch \<notin> fst ` set (sending m)"
    if "Closed ch \<in> set (trace m)"
    using trace_invD(2)[OF tinv that] closed_not_live[OF inv tinv that] by simp
  have nopush: "pushed ch (after_close ch (trace m)) = []" by (rule trace_invD(3)[OF tinv])
  have removal: "trace (step m ExecutorStep) = trace m @ [Removed ch, Closed ch]
      \<and> ch \<notin> set (fanoutEventChs (step m ExecutorStep))
      \<and> closed (chans (step m ExecutorStep) ! ch)"
    if "sending m = []" and "updateExecutor m = Remove ch # q"
    using that np bcast_inv_Remove_head[OF inv that(2)]
    by (simp add: executor_step_def Let_def)
  have reach: "\<exists>later. closed (chans (run pending (acts @ later)) ! ch)
      \<and> closes ch (trace (run pending (acts @ later))) = 1"
    if rng: "ch < length (chans m)"
  proof -
    from close_reachable[OF inv rng] obtain later where
      c: "closed (chans (foldl step m later) ! ch)" by blast
    have r: "run pending (acts @ later) = foldl step m later"
      by (simp add: m_def run_append)
    have "ch < length (chans (foldl step m later))"
      using rng length_chans_foldl[of m later] by simp
    with c trace_invD(1)[OF trace_inv_run[of pending "acts @ later"], of ch]
    have one: "closes ch (trace (run pending (acts @ later))) = 1"
      by (simp add: r closed_token_def)
    from c have "closed (chans (run pending (acts @ later)) ! ch)" by (simp add: r)
    with one show ?thesis by blast
  qed
  have blocked: "step m ExecutorStep = m
      \<and> (\<forall>later. closes ch (trace (run pending
              (acts @ filter (\<lambda>a. a \<noteq> SubscriberRecv c) later))) = closes ch (trace m))"
    if s: "sending m = (c, e) # rest" and f: "length (buf (chans m ! c)) = 100"
  proof -
    have "step m ExecutorStep = m"
      using np s f bcast_inv_sending_head[OF inv s] by (simp add: executor_step_def)
    moreover have "closes ch (trace (run pending
              (acts @ filter (\<lambda>a. a \<noteq> SubscriberRecv c) later))) = closes ch (trace m)" for later
      using blocked_run(2)[OF s[unfolded m_def] f[unfolded m_def], of ch later]
      by (simp add: m_def)
    ultimately show ?thesis by blast
  qed
  from np le once after nopush removal reach blocked show ?thesis
    unfolding Let_def m_def [symmetric] by blast
qed

text \<open>
  On the example schedule: channel 1 is removed and closed once, at step 12; the later
  event \<open>up\<close> is pushed to channel 0 only. On the schedule of the subscriber that never
  receives: the delivery waits on its full channel and the executor's step changes
  nothing.
\<close>

theorem fanout_queue_closed_at_most_once_after_removal_witness:
  "Closed 1 \<in> set (trace (run [] example_schedule))
   \<and> closes 1 (trace (run [] example_schedule)) = 1
   \<and> before (Removed 1) (Closed 1) (trace (run [] example_schedule))
   \<and> fanoutEventChs (run [] example_schedule) = [0]
   \<and> after_close 1 (trace (run [] example_schedule))
      = [Begin ''up'', Pushed 0 ''up'', Received 0 ''down'']
   \<and> pushed 1 (after_close 1 (trace (run [] example_schedule))) = []
   \<and> sending (run [] (take 11 example_schedule)) = []
   \<and> updateExecutor (run [] (take 11 example_schedule)) = [Remove 1]
   \<and> trace (run [] (take 12 example_schedule))
      = trace (run [] (take 11 example_schedule)) @ [Removed 1, Closed 1]
   \<and> 1 < length (chans (run [] (take 11 example_schedule)))
   \<and> \<not> closed (chans (run [] (take 11 example_schedule)) ! 1)
   \<and> closed (chans (run [] (take 11 example_schedule @ [ExecutorStep])) ! 1)
   \<and> sending (run [] flood_cancelled_schedule) = [(0, ''e'')]
   \<and> length (buf (chans (run [] flood_cancelled_schedule) ! 0)) = 100
   \<and> step (run [] flood_cancelled_schedule) ExecutorStep = run [] flood_cancelled_schedule"
  using fanout_queue_closed_at_most_once_after_removal [of "[]" example_schedule 1 "[]"]
    fanout_queue_closed_at_most_once_after_removal [of "[]" "take 11 example_schedule" 1 "[]"]
    fanout_queue_closed_at_most_once_after_removal
      [of "[]" flood_cancelled_schedule 0 "[]" 0 "''e''" "[]"]
  by (simp add: example_run closes_def after_close_def pushed_def flood_cancelled_run)
     (simp add: example_eval flooded_def)

subsection \<open>Fan-out\<close>

text \<open>
  Claim C5, as stated, does not hold: a subscription live before the delivery of an event
  began need not get the event, also when its own queue is never closed. Of two
  subscribers the first never receives and the second takes every event. Once the first
  buffer holds 100 events the delivery of \<open>E\<close> begins, with both channels live and as
  its targets, and waits to send to channel 0 (line 80 sends to the channels one after
  the other). Channel 1 is open, its buffer is empty and it is owed \<open>E\<close>, but the
  executor's step changes nothing, and \<open>E\<close> is not pushed to channel 1 in any
  continuation in which the first subscriber does not receive.
\<close>

theorem blocked_delivery_counterexample:
  "fanoutEventChs (run [] (jam_schedule 100)) = [0, 1]
   \<and> fanoutEventChs (run [] jam_blocked_schedule) = [0, 1]
   \<and> \<not> closed (chans (run [] jam_blocked_schedule) ! 1)
   \<and> buf (chans (run [] jam_blocked_schedule) ! 1) = []
   \<and> trace (run [] jam_blocked_schedule) = trace (run [] (jam_schedule 100)) @ [Begin ''E'']
   \<and> sending (run [] jam_blocked_schedule) = [(0, ''E''), (1, ''E'')]
   \<and> length (buf (chans (run [] jam_blocked_schedule) ! 0)) = 100
   \<and> owed 1 (trace (run [] jam_blocked_schedule))
      = pushed 1 (trace (run [] jam_blocked_schedule)) @ [''E'']
   \<and> ''E'' \<notin> set (pushed 1 (trace (run [] jam_blocked_schedule)))
   \<and> step (run [] jam_blocked_schedule) ExecutorStep = run [] jam_blocked_schedule
   \<and> (\<forall>later. ''E'' \<notin> set (pushed 1 (trace (run [] (jam_blocked_schedule
          @ filter (\<lambda>a. a \<noteq> SubscriberRecv 0) later)))))"
proof -
  have o: "owed 1 (trace (run [] jam_blocked_schedule))
      = pushed 1 (trace (run [] jam_blocked_schedule)) @ [''E'']"
    using trace_invD(5)[OF trace_inv_run[of "[]" jam_blocked_schedule], of 1]
    by (simp add: jam_blocked_run)
  have p: "''E'' \<notin> set (pushed 1 (trace (run [] jam_blocked_schedule)))"
    using jammed_pushed[of 100] by (simp add: jam_blocked_run trace_simps)
  have n: "\<forall>later. ''E'' \<notin> set (pushed 1 (trace (run [] (jam_blocked_schedule
          @ filter (\<lambda>a. a \<noteq> SubscriberRecv 0) later))))"
    using blocked_delivery_never_pushed by blast
  have "fanoutEventChs (run [] (jam_schedule 100)) = [0, 1]
   \<and> fanoutEventChs (run [] jam_blocked_schedule) = [0, 1]
   \<and> \<not> closed (chans (run [] jam_blocked_schedule) ! 1)
   \<and> buf (chans (run [] jam_blocked_schedule) ! 1) = []
   \<and> trace (run [] jam_blocked_schedule) = trace (run [] (jam_schedule 100)) @ [Begin ''E'']
   \<and> sending (run [] jam_blocked_schedule) = [(0, ''E''), (1, ''E'')]
   \<and> length (buf (chans (run [] jam_blocked_schedule) ! 0)) = 100
   \<and> owed 1 (trace (run [] jam_blocked_schedule))
      = pushed 1 (trace (run [] jam_blocked_schedule)) @ [''E'']
   \<and> ''E'' \<notin> set (pushed 1 (trace (run [] jam_blocked_schedule)))
   \<and> step (run [] jam_blocked_schedule) ExecutorStep = run [] jam_blocked_schedule"
    using o p
    by (simp add: jam_blocked_run jam_run jammed_def executor_step_def)
  with n show ?thesis by blast
qed

text \<open>
  Claim C5, amended. In every state the broadcaster can reach: the events pushed to a
  channel, followed by the sends to it that the running delivery has still to make, are
  the events whose delivery began while the channel was in the live set, in that order;
  with no delivery running the channel has been pushed each of them; its subscriber's
  receipts followed by its buffer are what was pushed; the deliveries begun, those
  submitted and the unread upstream events are the upstream events in the order they
  were sent. A delivery that starts takes every channel of the live set as a target, in
  the order of the live set, and a send to a channel with room pushes the event. A send
  to a full channel waits: the executor's step changes nothing, and nothing is pushed to
  any channel in any continuation in which the subscriber of the full channel does not
  receive. When the subscribers receive, the work can be finished: some continuation by
  executor steps, reads of the event loop and receives leaves nothing unread, submitted
  or pending, and then the delivery of every upstream event has begun and every channel
  was pushed all it is owed.
\<close>

theorem fanout_delivers_to_live_subscriptions_in_order:
  "let m = run pending acts in
     pushed ch (trace m) @ map snd (filter (\<lambda>(c, e). c = ch) (sending m)) = owed ch (trace m)
     \<and> live_in ch (trace m) = (ch \<in> set (fanoutEventChs m))
     \<and> (sending m = [] \<longrightarrow> pushed ch (trace m) = owed ch (trace m))
     \<and> (ch < length (chans m) \<longrightarrow>
          received ch (trace m) @ buf (chans m ! ch) = pushed ch (trace m))
     \<and> begun (trace m) @ delivers (updateExecutor m) @ eventCh m = pending @ upstream_sent acts
     \<and> (sending m = [] \<and> updateExecutor m = Deliver e # q \<longrightarrow>
          sending (step m ExecutorStep) = map (\<lambda>c. (c, e)) (fanoutEventChs m)
          \<and> trace (step m ExecutorStep) = trace m @ [Begin e])
     \<and> (sending m = (c', e') # rest \<and> length (buf (chans m ! c')) < 100 \<longrightarrow>
          sending (step m ExecutorStep) = rest
          \<and> trace (step m ExecutorStep) = trace m @ [Pushed c' e']
          \<and> buf (chans (step m ExecutorStep) ! c') = buf (chans m ! c') @ [e'])
     \<and> (sending m = (c', e') # rest \<and> length (buf (chans m ! c')) = 100 \<longrightarrow>
          step m ExecutorStep = m
          \<and> (\<forall>later. pushed ch (trace (run pending
                  (acts @ filter (\<lambda>a. a \<noteq> SubscriberRecv c') later))) = pushed ch (trace m)))
     \<and> (\<exists>later. list_all quiet later
          \<and> sending (run pending (acts @ later)) = []
          \<and> updateExecutor (run pending (acts @ later)) = []
          \<and> eventCh (run pending (acts @ later)) = []
          \<and> begun (trace (run pending (acts @ later))) = pending @ upstream_sent acts
          \<and> (\<forall>ch. pushed ch (trace (run pending (acts @ later)))
                   = owed ch (trace (run pending (acts @ later)))))"
proof -
  define m where "m = run pending acts"
  have inv: "bcast_inv m" unfolding m_def by (rule bcast_inv_run)
  have tinv: "trace_inv m" unfolding m_def by (rule trace_inv_run)
  have np: "\<not> panicked m" using inv by (simp add: bcast_inv_def)
  have a: "pushed ch (trace m) @ map snd (filter (\<lambda>(c, e). c = ch) (sending m)) = owed ch (trace m)"
    by (rule trace_invD(5)[OF tinv])
  have b: "live_in ch (trace m) = (ch \<in> set (fanoutEventChs m))"
    by (rule trace_invD(4)[OF tinv])
  have c: "pushed ch (trace m) = owed ch (trace m)" if "sending m = []"
    using a that by simp
  have d: "received ch (trace m) @ buf (chans m ! ch) = pushed ch (trace m)"
    if "ch < length (chans m)"
    by (rule trace_invD(6)[OF tinv that])
  have e: "begun (trace m) @ delivers (updateExecutor m) @ eventCh m = pending @ upstream_sent acts"
    using flow_run[of pending acts] by (simp add: flow_def m_def)
  have f: "sending (step m ExecutorStep) = map (\<lambda>c. (c, e)) (fanoutEventChs m)
      \<and> trace (step m ExecutorStep) = trace m @ [Begin e]"
    if "sending m = []" and "updateExecutor m = Deliver e # q"
    using that np by (simp add: executor_step_def)
  have g: "sending (step m ExecutorStep) = rest
      \<and> trace (step m ExecutorStep) = trace m @ [Pushed c' e']
      \<and> buf (chans (step m ExecutorStep) ! c') = buf (chans m ! c') @ [e']"
    if "sending m = (c', e') # rest" and "length (buf (chans m ! c')) < 100"
    using that np bcast_inv_sending_head[OF inv that(1)]
    by (simp add: executor_step_def)
  have blocked: "step m ExecutorStep = m
      \<and> (\<forall>later. pushed ch (trace (run pending
              (acts @ filter (\<lambda>a. a \<noteq> SubscriberRecv c') later))) = pushed ch (trace m))"
    if s: "sending m = (c', e') # rest" and f: "length (buf (chans m ! c')) = 100"
  proof -
    have "step m ExecutorStep = m"
      using np s f bcast_inv_sending_head[OF inv s] by (simp add: executor_step_def)
    moreover have "pushed ch (trace (run pending
              (acts @ filter (\<lambda>a. a \<noteq> SubscriberRecv c') later))) = pushed ch (trace m)" for later
      using blocked_run(1)[OF s[unfolded m_def] f[unfolded m_def], of ch later]
      by (simp add: m_def)
    ultimately show ?thesis by blast
  qed
  note h = delivery_reachable[of pending acts]
  from a b c d e f g blocked h show ?thesis
    unfolding Let_def m_def [symmetric] by blast
qed

text \<open>
  On the example schedule: channel 0 gets \<open>down\<close> and \<open>up\<close>, channel 1 (removed in
  between) gets \<open>down\<close>; the delivery of \<open>down\<close> targets both channels. On the schedule
  of the two subscribers: the delivery of \<open>E\<close> waits on the full channel 0.
\<close>

theorem fanout_delivers_to_live_subscriptions_in_order_witness:
  "owed 0 (trace (run [] example_schedule)) = [''down'', ''up'']
   \<and> pushed 0 (trace (run [] example_schedule)) = [''down'', ''up'']
   \<and> owed 1 (trace (run [] example_schedule)) = [''down'']
   \<and> pushed 1 (trace (run [] example_schedule)) = [''down'']
   \<and> sending (run [] example_schedule) = []
   \<and> length (chans (run [] example_schedule)) = 2
   \<and> received 0 (trace (run [] example_schedule)) = [''down'']
   \<and> buf (chans (run [] example_schedule) ! 0) = [''up'']
   \<and> upstream_sent example_schedule = [''down'', ''up'']
   \<and> begun (trace (run [] example_schedule)) = [''down'', ''up'']
   \<and> sending (run [] (take 6 example_schedule)) = []
   \<and> updateExecutor (run [] (take 6 example_schedule)) = [Deliver ''down'']
   \<and> sending (run [] (take 7 example_schedule)) = [(0, ''down''), (1, ''down'')]
   \<and> sending (run [] (take 8 example_schedule)) = [(1, ''down'')]
   \<and> trace (run [] (take 8 example_schedule))
      = trace (run [] (take 7 example_schedule)) @ [Pushed 0 ''down'']
   \<and> sending (run [] jam_blocked_schedule) = [(0, ''E''), (1, ''E'')]
   \<and> length (buf (chans (run [] jam_blocked_schedule) ! 0)) = 100
   \<and> step (run [] jam_blocked_schedule) ExecutorStep = run [] jam_blocked_schedule"
  using fanout_delivers_to_live_subscriptions_in_order [of "[]" example_schedule 0]
    fanout_delivers_to_live_subscriptions_in_order [of "[]" example_schedule 1]
    fanout_delivers_to_live_subscriptions_in_order
      [of "[]" "take 6 example_schedule" 0 "''down''" "[]"]
    fanout_delivers_to_live_subscriptions_in_order
      [of "[]" "take 7 example_schedule" 0 _ _ 0 "''down''" "[(1, ''down'')]"]
    fanout_delivers_to_live_subscriptions_in_order
      [of "[]" jam_blocked_schedule 1 _ _ 0 "''E''" "[(1, ''E'')]"]
  by (simp add: example_run owed_def pushed_def received_def begun_def delivers_def
        jam_blocked_run)
     (simp add: example_eval jammed_def)

subsection \<open>Subscribing\<close>

text \<open>
  Claim C6. MonitorConnections returns the stream over a new channel and a nil error; the
  channel is new, empty, open and of capacity 100; its registration is appended to the
  executor's queue; and the call leaves the live set, the waiting goroutines and the
  running delivery as they were, so the registration has not run when the call returns.
  In every reachable state every channel has capacity 100 and holds at most 100 events,
  and a send to a channel that holds 100 blocks.
\<close>

theorem MonitorConnections_queue_and_registration:
  "fst (MonitorConnections c sel m) = (Some (length (chans m)), None)
   \<and> chans (snd (MonitorConnections c sel m))
      = chans m @ [\<lparr>buf = [], cap = 100, closed = False\<rparr>]
   \<and> updateExecutor (snd (MonitorConnections c sel m))
      = updateExecutor m @ [Register (length (chans m)) c]
   \<and> fanoutEventChs (snd (MonitorConnections c sel m)) = fanoutEventChs m
   \<and> waiting (snd (MonitorConnections c sel m)) = waiting m
   \<and> sending (snd (MonitorConnections c sel m)) = sending m
   \<and> trace (snd (MonitorConnections c sel m)) = trace m @ [Made (length (chans m))]
   \<and> (ch < length (chans (run pending acts)) \<longrightarrow>
        cap (chans (run pending acts) ! ch) = 100
        \<and> length (buf (chans (run pending acts) ! ch)) \<le> 100)
   \<and> (sending (run pending acts) = (c', e) # rest
        \<and> length (buf (chans (run pending acts) ! c')) = 100 \<longrightarrow>
        step (run pending acts) ExecutorStep = run pending acts)"
proof -
  have inv: "bcast_inv (run pending acts)" by (rule bcast_inv_run)
  have np: "\<not> panicked (run pending acts)" using inv by (simp add: bcast_inv_def)
  have call: "fst (MonitorConnections c sel m) = (Some (length (chans m)), None)
   \<and> chans (snd (MonitorConnections c sel m))
      = chans m @ [\<lparr>buf = [], cap = 100, closed = False\<rparr>]
   \<and> updateExecutor (snd (MonitorConnections c sel m))
      = updateExecutor m @ [Register (length (chans m)) c]
   \<and> fanoutEventChs (snd (MonitorConnections c sel m)) = fanoutEventChs m
   \<and> waiting (snd (MonitorConnections c sel m)) = waiting m
   \<and> sending (snd (MonitorConnections c sel m)) = sending m
   \<and> trace (snd (MonitorConnections c sel m)) = trace m @ [Made (length (chans m))]"
    by (simp add: MonitorConnections_def AsyncExec_def Let_def)
  have caps: "cap (chans (run pending acts) ! ch) = 100
        \<and> length (buf (chans (run pending acts) ! ch)) \<le> 100"
    if "ch < length (chans (run pending acts))"
    by (rule bcast_inv_caps[OF inv that])
  have full: "step (run pending acts) ExecutorStep = run pending acts"
    if "sending (run pending acts) = (c', e) # rest"
      and "length (buf (chans (run pending acts) ! c')) = 100"
    using that np bcast_inv_sending_head[OF inv that(1)]
    by (simp add: executor_step_def)
  from call caps full show ?thesis by blast
qed

text \<open>
  On the example schedule a third subscription is queued as \<open>Register 2 3\<close>; and after
  100 undelivered events the send of the next one blocks.
\<close>

theorem MonitorConnections_queue_and_registration_witness:
  "fst (MonitorConnections 3 None (run [] example_schedule)) = (Some 2, None)
   \<and> updateExecutor (snd (MonitorConnections 3 None (run [] example_schedule))) = [Register 2 3]
   \<and> fanoutEventChs (snd (MonitorConnections 3 None (run [] example_schedule))) = [0]
   \<and> (0::nat) < length (chans (run [] example_schedule))
   \<and> cap (chans (run [] example_schedule) ! 0) = 100
   \<and> sending (run [] (flood_schedule 100 @ [UpstreamSend ''e'', LoopRead, ExecutorStep]))
      = [(0, ''e'')]
   \<and> length (buf (chans (run [] (flood_schedule 100 @ [UpstreamSend ''e'', LoopRead, ExecutorStep])) ! 0)) = 100
   \<and> step (run [] (flood_schedule 100 @ [UpstreamSend ''e'', LoopRead, ExecutorStep])) ExecutorStep
      = run [] (flood_schedule 100 @ [UpstreamSend ''e'', LoopRead, ExecutorStep])"
  using MonitorConnections_queue_and_registration
    [of 3 None "run [] example_schedule" 0 "[]" example_schedule]
    MonitorConnections_queue_and_registration
    [of 3 None "run [] example_schedule" 0 "[]"
        "flood_schedule 100 @ [UpstreamSend ''e'', LoopRead, ExecutorStep]" 0 "''e''" "[]"]
  by (simp add: example_run flood_blocked MonitorConnections_def AsyncExec_def Let_def)
     (simp add: flooded_def)




end
